theory Spec2Isabelle
  imports Main "HOL-Library.Word"
begin

unbundle bit_operations_syntax

section \<open>Machine words\<close>

type_synonym u8 = "8 word"
type_synonym u16 = "16 word"
type_synonym u32 = "32 word"
type_synonym u64 = "64 word"
type_synonym u128 = "128 word"

section \<open>Software divisor (utils.h, class Divisor)\<close>

text \<open>The fields of the class \<^verbatim>\<open>Divisor\<close> at word type uint64; \<open>DoubleWord\<close> is \<open>__uint128_t\<close> and
  \<open>BITWIDTH\<close> is 64.\<close>

record Divisor =
  m_val :: u64
  m_fac :: u64
  m_tip :: u64
  m_sft :: nat

text \<open>The loop \<open>for (; m > n; m >>= 1U) m_sft--\<close> of \<open>operator=\<close>.\<close>

function Divisor_shift :: "u64 \<Rightarrow> u64 \<Rightarrow> nat \<Rightarrow> u64 \<times> nat" where
  "Divisor_shift m n sft = (if m > n then Divisor_shift (drop_bit 1 m) n (sft - 1) else (m, sft))"
  by pat_completeness auto
termination
proof (relation "measure (\<lambda>(m, n, sft). unat m)")
  show "wf (measure (\<lambda>(m, n, sft). unat m))" by simp
next
  fix m n :: u64 and sft :: nat
  assume "n < m"
  then have "m \<noteq> 0" by auto
  then have "unat m \<noteq> 0" by (simp add: unat_eq_0)
  then have "unat m div 2 < unat m" by simp
  then show "((drop_bit 1 m, n, sft - 1), (m, n, sft)) \<in> measure (\<lambda>(m, n, sft). unat m)"
    by (simp add: drop_bit_eq_div unat_div)
qed

declare Divisor_shift.simps [simp del]

definition Divisor_assign :: "u64 \<Rightarrow> Divisor" where
  "Divisor_assign n =
    (if n = 0 then \<lparr>m_val = n, m_fac = 0, m_tip = 0, m_sft = 0\<rparr>
     else let (m, sft) = Divisor_shift (push_bit 63 1) n 63 in
       if m = n then \<lparr>m_val = n, m_fac = NOT 0, m_tip = NOT 0, m_sft = sft\<rparr>
       else let fac = (ucast (push_bit 64 (ucast m :: u128) div ucast n) :: u64);
                r = fac * n + n
            in if r \<le> m then \<lparr>m_val = n, m_fac = fac + 1, m_tip = 0, m_sft = sft\<rparr>
               else \<lparr>m_val = n, m_fac = fac, m_tip = fac, m_sft = sft\<rparr>)"

definition Divisor_t :: "Divisor \<Rightarrow> u64 \<Rightarrow> u64" where
  "Divisor_t d m = ucast (drop_bit 64 (ucast (m_fac d) * (ucast m :: u128) + ucast (m_tip d)))"

definition Divisor_div :: "Divisor \<Rightarrow> u64 \<Rightarrow> u64" where
  "Divisor_div d m = drop_bit (m_sft d) (Divisor_t d m)"

definition Divisor_mod :: "Divisor \<Rightarrow> u64 \<Rightarrow> u64" where
  "Divisor_mod d m = m - m_val d * drop_bit (m_sft d) (Divisor_t d m)"

subsection \<open>Exactness of the divisor\<close>

lemma div_bracket:
  fixes n d :: nat assumes "0 < d"
  shows "(n div d) * d \<le> n" and "n + 1 \<le> (n div d + 1) * d"
proof -
  show "(n div d) * d \<le> n" by simp
  have "n = (n div d) * d + n mod d" by simp
  moreover have "n mod d < d" using assms by simp
  ultimately have "n < (n div d) * d + d" by linarith
  then show "n + 1 \<le> (n div d + 1) * d" by (simp add: algebra_simps)
qed

lemma robison_up:
  fixes a d e n M :: nat
  assumes d: "0 < d" and ad: "a * d = M + e" and e: "n * e < M"
  shows "(a * n) div M = n div d"
proof (rule div_nat_eqI)
  let ?k = "n div d"
  note kd = div_bracket [OF d, of n]
  have eq: "(a * n) * d = n * M + n * e"
  proof -
    have "(a * n) * d = n * (a * d)" by (simp add: algebra_simps)
    then show ?thesis by (simp add: ad algebra_simps)
  qed
  have "(M * ?k) * d = (?k * d) * M" by (simp add: algebra_simps)
  also have "\<dots> \<le> n * M" using kd(1) by (rule mult_le_mono1)
  also have "\<dots> \<le> (a * n) * d" using eq by simp
  finally show "M * ?k \<le> a * n" using d by simp
  have "(a * n) * d < n * M + M" using eq e by simp
  also have "\<dots> = (n + 1) * M" by simp
  also have "\<dots> \<le> ((?k + 1) * d) * M" using kd(2) by (rule mult_le_mono1)
  also have "\<dots> = (M * Suc ?k) * d" by (simp add: algebra_simps)
  finally show "a * n < M * Suc ?k" using d by simp
qed

lemma robison_down:
  fixes q d r n M :: nat
  assumes d: "0 < d" and qd: "q * d + r = M" and r0: "0 < r" and r: "(n + 1) * r \<le> M"
  shows "(q * n + q) div M = n div d"
proof (rule div_nat_eqI)
  let ?k = "n div d"
  note kd = div_bracket [OF d, of n]
  have eq: "(q * n + q) * d + (n + 1) * r = (n + 1) * M"
  proof -
    have "(q * n + q) * d + (n + 1) * r = (n + 1) * (q * d + r)" by (simp add: algebra_simps)
    then show ?thesis by (simp add: qd)
  qed
  have "(?k * d) * M \<le> n * M" using kd(1) by (rule mult_le_mono1)
  then have "(M * ?k) * d + M \<le> (n + 1) * M" by (simp add: algebra_simps)
  then have "(M * ?k) * d + (n + 1) * r \<le> (q * n + q) * d + (n + 1) * r" using eq r by linarith
  then show "M * ?k \<le> q * n + q" using d by simp
  have "0 < (n + 1) * r" using r0 by simp
  then have "(q * n + q) * d < (n + 1) * M" using eq by linarith
  also have "\<dots> \<le> ((?k + 1) * d) * M" using kd(2) by (rule mult_le_mono1)
  also have "\<dots> = (M * Suc ?k) * d" by (simp add: algebra_simps)
  finally show "q * n + q < M * Suc ?k" using d by simp
qed

lemma unat_p2_64: "k < 64 \<Longrightarrow> unat (2 ^ k :: u64) = 2 ^ k"
proof -
  assume k: "k < 64"
  have "(2::nat) ^ k < 2 ^ 64" using k by (rule power_strict_increasing) simp
  moreover have "(2 ^ k :: u64) = of_nat (2 ^ k)" by simp
  ultimately show ?thesis by (simp only: unat_of_nat) simp
qed

lemma unat_lt_64: "unat (w :: u64) < 2 ^ 64"
  using unsigned_less [of w, where 'a = nat] by simp

lemma unat_ucast_64_128: "unat (ucast (w :: u64) :: u128) = unat w"
proof -
  have "unat w < 2 ^ 128" using unat_lt_64 [of w] by (rule less_trans) simp
  then show ?thesis by (simp add: unsigned_ucast_eq take_bit_eq_mod)
qed

lemma fxt_bound:
  fixes f x t :: nat
  assumes "f < 2 ^ 64" "x < 2 ^ 64" "t < 2 ^ 64"
  shows "f * x + t < 2 ^ 128"
proof -
  have "f * x \<le> (2 ^ 64 - 1) * (2 ^ 64 - 1)" using assms(1,2) by (intro mult_le_mono) auto
  moreover have "t \<le> 2 ^ 64 - 1" using assms(3) by simp
  ultimately have "f * x + t \<le> (2 ^ 64 - 1) * (2 ^ 64 - 1) + (2 ^ 64 - 1)" by (rule add_mono)
  also have "\<dots> < (2::nat) ^ 128" by simp
  finally show ?thesis .
qed

lemma Divisor_t_unat:
  "unat (Divisor_t d x) = (unat (m_fac d) * unat x + unat (m_tip d)) div 2 ^ 64"
proof -
  let ?s = "unat (m_fac d) * unat x + unat (m_tip d)"
  have b: "?s < 2 ^ 128" by (rule fxt_bound) (rule unat_lt_64)+
  have "unat (ucast (m_fac d) * (ucast x :: u128) + ucast (m_tip d)) = ?s"
    using b by (simp add: unat_word_ariths unat_ucast_64_128 mod_add_left_eq)
  then have 1: "unat (drop_bit 64 (ucast (m_fac d) * (ucast x :: u128) + ucast (m_tip d))) = ?s div 2 ^ 64"
    by (simp only: unat_drop_bit_eq) (simp add: drop_bit_eq_div)
  have "?s div 2 ^ 64 < 2 ^ 64" using b by (simp add: less_mult_imp_div_less)
  then show ?thesis unfolding Divisor_t_def
    by (simp add: unsigned_ucast_eq 1 take_bit_eq_mod)
qed

lemma Divisor_div_unat:
  "unat (Divisor_div d x) = (unat (m_fac d) * unat x + unat (m_tip d)) div 2 ^ (64 + m_sft d)"
proof -
  have "unat (Divisor_div d x) = drop_bit (m_sft d) (unat (Divisor_t d x))"
    unfolding Divisor_div_def by (rule unat_drop_bit_eq)
  then show ?thesis
    by (simp add: drop_bit_eq_div Divisor_t_unat div_mult2_eq power_add)
qed

lemma dvd_p2: "(d::nat) dvd 2 ^ k \<Longrightarrow> \<exists>j. d = 2 ^ j"
proof (induction k arbitrary: d)
  case 0
  then have "d = 2 ^ 0" by simp
  then show ?case by blast
next
  case (Suc k)
  show ?case
  proof (cases "even d")
    case True
    then obtain e where e: "d = 2 * e" by (auto elim: evenE)
    with Suc.prems have "e dvd 2 ^ k" by simp
    then obtain j where "e = 2 ^ j" using Suc.IH by blast
    then have "d = 2 ^ Suc j" using e by simp
    then show ?thesis by blast
  next
    case False
    then have "coprime d 2" by simp
    with Suc.prems have "d dvd 2 ^ k" by (simp add: coprime_dvd_mult_right_iff)
    then show ?thesis using Suc.IH by blast
  qed
qed

lemma not_dvd_between:
  fixes d :: nat
  assumes "2 ^ s < d" "d < 2 ^ Suc s"
  shows "\<not> d dvd 2 ^ k"
proof
  assume "d dvd 2 ^ k"
  then obtain j where j: "d = 2 ^ j" using dvd_p2 by blast
  from assms have "s < j" "j < Suc s" unfolding j by (simp_all only: power_strict_increasing_iff one_less_numeral_iff semiring_norm)
  then show False by simp
qed

lemma Divisor_shift_pow:
  "k < 64 \<Longrightarrow> n \<noteq> 0 \<Longrightarrow> unat n < 2 ^ Suc k \<Longrightarrow>
   \<exists>s\<le>k. Divisor_shift (2 ^ k) n k = (2 ^ s, s) \<and> 2 ^ s \<le> unat n \<and> unat n < 2 ^ Suc s"
proof (induction k)
  case 0
  then have "unat n \<noteq> 0" by (simp add: unat_0_iff)
  with 0 have n1: "unat n = 1" by simp
  then have "n = 1" by (metis unat_1 word_unat_eq_iff)
  then show ?case by (simp add: Divisor_shift.simps)
next
  case (Suc k)
  have p: "unat (2 ^ Suc k :: u64) = 2 ^ Suc k" using Suc.prems(1) by (rule unat_p2_64)
  show ?case
  proof (cases "n < 2 ^ Suc k")
    case True
    then have lt: "unat n < 2 ^ Suc k" by (simp only: word_less_nat_alt p)
    have "unat (drop_bit 1 (2 ^ Suc k :: u64)) = unat (2 ^ k :: u64)"
      using Suc.prems(1) by (simp only: unat_drop_bit_eq p) (simp add: drop_bit_eq_div unat_p2_64)
    then have d: "drop_bit 1 (2 ^ Suc k :: u64) = 2 ^ k" by (simp only: word_unat_eq_iff)
    from Suc.IH [OF _ Suc.prems(2) lt] Suc.prems(1)
    obtain s where s: "s \<le> k" "Divisor_shift (2 ^ k) n k = (2 ^ s, s)" "2 ^ s \<le> unat n" "unat n < 2 ^ Suc s"
      by auto
    have "Divisor_shift (2 ^ Suc k) n (Suc k) = Divisor_shift (2 ^ k) n k"
      using True d by (subst Divisor_shift.simps) simp
    with s show ?thesis by (intro exI [of _ s]) simp
  next
    case False
    then have ge: "2 ^ Suc k \<le> unat n" by (simp only: word_less_nat_alt p not_less)
    have "Divisor_shift (2 ^ Suc k) n (Suc k) = (2 ^ Suc k, Suc k)"
      using False by (subst Divisor_shift.simps) simp
    with ge Suc.prems(3) show ?thesis by (intro exI [of _ "Suc k"]) simp
  qed
qed

lemma Divisor_assign_exact:
  assumes n: "n \<noteq> 0"
  shows "unat (Divisor_div (Divisor_assign n) x) = unat x div unat n"
proof -
  let ?d = "unat n"
  have d0: "0 < ?d" using n by (simp add: unat_gt_0)
  have "unat n < 2 ^ Suc 63" using unat_lt_64 [of n] by simp
  from Divisor_shift_pow [OF _ n this]
  obtain s where s: "s \<le> 63" "Divisor_shift (2 ^ 63) n 63 = (2 ^ s, s)" "2 ^ s \<le> ?d" "?d < 2 ^ Suc s"
    by auto
  have s64: "s < 64" using s(1) by simp
  have ps: "unat (2 ^ s :: u64) = 2 ^ s" using s64 by (rule unat_p2_64)
  let ?M = "(2::nat) ^ (64 + s)"
  have xlt: "unat x < 2 ^ 64" by (rule unat_lt_64)
  show ?thesis
  proof (cases "(2 ^ s :: u64) = n")
    case True
    then have dn: "?d = 2 ^ s" using ps by simp
    have D: "Divisor_assign n = \<lparr>m_val = n, m_fac = NOT 0, m_tip = NOT 0, m_sft = s\<rparr>"
      using n s(2) True by (simp add: Divisor_assign_def)
    have m1: "unat (NOT 0 :: u64) = 2 ^ 64 - 1" by (simp add: unsigned_minus_1_eq_mask mask_eq_exp_minus_1)
    have "((2 ^ 64 - 1) * unat x + (2 ^ 64 - 1)) div ?M = unat x div 2 ^ s"
    proof (rule robison_down [where r = "2 ^ s"])
      show "(2 ^ 64 - 1) * 2 ^ s + 2 ^ s = ?M" by (simp add: power_add algebra_simps)
      show "(unat x + 1) * 2 ^ s \<le> ?M" using xlt by (simp add: power_add)
    qed simp_all
    then show ?thesis by (simp only: Divisor_div_unat D Divisor.simps m1 dn)
  next
    case False
    then have "unat (2 ^ s :: u64) \<noteq> ?d" by (simp add: word_unat_eq_iff)
    with s(3) ps have lo: "2 ^ s < ?d" by simp
    let ?q = "?M div ?d"
    let ?r = "?M mod ?d"
    have r0: "0 < ?r" using not_dvd_between [OF lo s(4), of "64 + s"] by (simp add: dvd_eq_mod_eq_0)
    have rd: "?r < ?d" using d0 by simp
    have qd: "?q * ?d + ?r = ?M" by simp
    have qlt: "?q < 2 ^ 64"
    proof -
      have "?M < 2 ^ 64 * ?d" using lo by (simp add: power_add)
      then show ?thesis by (simp add: less_mult_imp_div_less mult.commute)
    qed
    define fac :: u64 where "fac = ucast (push_bit 64 (ucast (2 ^ s :: u64) :: u128) div ucast n)"
    have "unat (push_bit 64 (ucast (2 ^ s :: u64) :: u128)) = ?M"
    proof -
      have "?M < 2 ^ 128" using s64 by (intro power_strict_increasing) simp_all
      then show ?thesis
        by (simp only: unsigned_push_bit_eq unat_ucast_64_128 ps)
          (simp add: push_bit_eq_mult take_bit_eq_mod power_add mult.commute)
    qed
    then have "unat (push_bit 64 (ucast (2 ^ s :: u64) :: u128) div ucast n) = ?q"
      by (simp only: unat_div unat_ucast_64_128)
    then have fac: "unat fac = ?q"
      using qlt by (simp add: fac_def unsigned_ucast_eq take_bit_eq_mod)
    define r :: u64 where "r = fac * n + n"
    have e: "?q * ?d + ?d = ?M + (?d - ?r)" using qd rd by linarith
    have elt: "?d - ?r < 2 ^ 64" using unat_lt_64 [of n] by simp
    have "unat r = (?q * ?d + ?d) mod 2 ^ 64"
      by (simp add: r_def unat_word_ariths fac mod_add_left_eq)
    also have "\<dots> = (?d - ?r) mod 2 ^ 64" unfolding e by (simp add: power_add)
    also have "\<dots> = ?d - ?r" using elt by simp
    finally have r: "unat r = ?d - ?r" .
    show ?thesis
    proof (cases "r \<le> 2 ^ s")
      case True
      then have le: "?d - ?r \<le> 2 ^ s" by (simp only: word_le_nat_alt r ps)
      have q1: "?q + 1 < 2 ^ 64"
      proof -
        have "(?q + 1) * ?d = ?M + (?d - ?r)" using e by (simp add: algebra_simps)
        moreover have "?M + (?d - ?r) < 2 ^ 64 * ?d"
        proof -
          have "2 ^ 64 * (2 ^ s + 1) \<le> 2 ^ 64 * ?d" using lo by (intro mult_le_mono2) simp
          moreover have "(2::nat) ^ s < 2 ^ 64" using s64 by (intro power_strict_increasing) simp_all
          ultimately show ?thesis using le by (simp add: power_add)
        qed
        ultimately have "(?q + 1) * ?d < 2 ^ 64 * ?d" by simp
        then show ?thesis using d0 by simp
      qed
      have D: "Divisor_assign n = \<lparr>m_val = n, m_fac = fac + 1, m_tip = 0, m_sft = s\<rparr>"
        using n s(2) False True by (simp add: Divisor_assign_def fac_def r_def Let_def)
      have f1: "unat (fac + 1) = ?q + 1" using q1 fac by (simp add: unat_word_ariths)
      have "((?q + 1) * unat x) div ?M = unat x div ?d"
      proof (rule robison_up [where e = "?d - ?r"])
        show "(?q + 1) * ?d = ?M + (?d - ?r)" using e by (simp add: algebra_simps)
        have "unat x * (?d - ?r) \<le> unat x * 2 ^ s" using le by simp
        also have "\<dots> < ?M" using xlt by (simp add: power_add)
        finally show "unat x * (?d - ?r) < ?M" .
      qed (rule d0)
      then show ?thesis by (simp add: Divisor_div_unat D f1)
    next
      case False
      then have gt: "2 ^ s < ?d - ?r" by (simp only: word_le_nat_alt r ps not_le)
      have D: "Divisor_assign n = \<lparr>m_val = n, m_fac = fac, m_tip = fac, m_sft = s\<rparr>"
        using n s(2) \<open>2 ^ s \<noteq> n\<close> False by (simp add: Divisor_assign_def fac_def r_def Let_def)
      have rs: "?r < 2 ^ s" using gt s(4) by simp
      have "(?q * unat x + ?q) div ?M = unat x div ?d"
      proof (rule robison_down [where r = ?r])
        have "(unat x + 1) * ?r \<le> 2 ^ 64 * 2 ^ s" using xlt rs by (intro mult_mono) simp_all
        then show "(unat x + 1) * ?r \<le> ?M" by (simp add: power_add)
      qed (rule d0 qd r0)+
      then show ?thesis by (simp add: Divisor_div_unat D fac)
    qed
  qed
qed

lemma Divisor_assign_val: "m_val (Divisor_assign n) = n"
  by (simp add: Divisor_assign_def Let_def split: prod.splits)

lemma Divisor_div_mod:
  "d \<noteq> 0 \<Longrightarrow> Divisor_div (Divisor_assign d) n = n div d \<and> Divisor_mod (Divisor_assign d) n = n mod d"
proof -
  assume d: "d \<noteq> 0"
  have dv: "Divisor_div (Divisor_assign d) n = n div d"
    by (simp only: word_unat_eq_iff Divisor_assign_exact [OF d] unat_div)
  have "Divisor_mod (Divisor_assign d) n = n - d * Divisor_div (Divisor_assign d) n"
    by (simp add: Divisor_mod_def Divisor_div_def Divisor_assign_val)
  also have "\<dots> = n mod d" by (simp only: dv minus_mult_div_eq_mod)
  finally show ?thesis using dv by simp
qed

text \<open>
  Claim C7. For every divisor \<open>d\<close> with \<open>1 \<le> d \<le> 2^64 - 1\<close> and every 64-bit \<open>n\<close>,
  the precomputed divisor is exact: \<open>div\<close> returns the true quotient \<open>n / d\<close> and
  \<open>mod\<close> the true remainder \<open>n mod d\<close> (division and remainder of unsigned 64-bit words).
\<close>

theorem Divisor_exact:
  "d \<noteq> 0 \<Longrightarrow> Divisor_div (Divisor_assign d) n = n div d \<and> Divisor_mod (Divisor_assign d) n = n mod d"
  by (rule Divisor_div_mod)

theorem Divisor_exact_witness:
  "(7 :: u64) \<noteq> 0 \<and> Divisor_div (Divisor_assign 7) 100 = 14 \<and> Divisor_mod (Divisor_assign 7) 100 = 2"
  using Divisor_exact [of 7 100] by simp

section \<open>The 8-slot metadata scan (CalcHint)\<close>

text \<open>Byte \<open>j\<close> of a 64-bit word, counted from the least significant byte: on the
  little-endian targets of the library this is the guide byte at offset \<open>j\<close> of the 8-byte load.\<close>

definition byte :: "u64 \<Rightarrow> nat \<Rightarrow> u8" where
  "byte w j = ucast (drop_bit (8 * j) w)"

definition CalcHint :: "u64 \<Rightarrow> u8 \<Rightarrow> u64" where
  "CalcHint vec mark =
    (let vone = 0x101010101010101;
         vsign = 0x8080808080808080;
         vmark = NOT (vone * ucast mark);
         match = ((vec XOR vsign) AND vsign) AND (((vec XOR vmark) AND NOT vsign) + vone);
         empty = vec AND vsign
     in empty OR match)"

subsection \<open>Bytes of a word as base-256 digits\<close>

fun le_val :: "nat list \<Rightarrow> nat" where
  "le_val [] = 0"
| "le_val (d # ds) = d + 256 * le_val ds"

lemma le_val_add: "length xs = length ys \<Longrightarrow> le_val (map2 (+) xs ys) = le_val xs + le_val ys"
  by (induction xs ys rule: list_induct2) (simp_all add: algebra_simps)

lemma le_val_replicate: "le_val (replicate k m) = m * le_val (replicate k 1)"
  by (induction k) (simp_all add: algebra_simps)

lemma le_val_digit:
  "\<forall>d\<in>set ds. d < 256 \<Longrightarrow> j < length ds \<Longrightarrow> le_val ds div 256 ^ j mod 256 = ds ! j"
proof (induction ds arbitrary: j)
  case Nil
  then show ?case by simp
next
  case (Cons d ds)
  show ?case
  proof (cases j)
    case 0
    with Cons.prems show ?thesis by simp
  next
    case (Suc i)
    have "(d + 256 * le_val ds) div (256 * 256 ^ i) = ((d + 256 * le_val ds) div 256) div 256 ^ i"
      by (simp add: div_mult2_eq)
    also have "(d + 256 * le_val ds) div 256 = le_val ds" using Cons.prems(1) by simp
    finally show ?thesis using Cons.IH [of i] Cons.prems Suc by simp
  qed
qed

lemma le_val_digits:
  "x < 256 ^ n \<Longrightarrow> le_val (map (\<lambda>j. x div 256 ^ j mod 256) [0..<n]) = x"
proof (induction n arbitrary: x)
  case 0
  then show ?case by simp
next
  case (Suc n)
  have "x div 256 < 256 ^ n" using Suc.prems by (simp add: less_mult_imp_div_less mult.commute)
  from Suc.IH [OF this]
  have "le_val (map (\<lambda>j. x div 256 ^ Suc j mod 256) [0..<n]) = x div 256"
    by (simp add: div_mult2_eq)
  then show ?case
    by (simp add: upt_conv_Cons map_Suc_upt [symmetric] del: upt_Suc o_def)
      (simp add: comp_def)
qed

lemma unat_byte: "unat (byte w j) = unat w div 256 ^ j mod 256"
proof -
  have "(256::nat) ^ j = 2 ^ (8 * j)" by (simp add: power_mult)
  then show ?thesis
    unfolding byte_def
    by (simp only: unsigned_ucast_eq unat_drop_bit_eq) (simp add: take_bit_eq_mod drop_bit_eq_div)
qed

lemma byte_and: "byte (a AND b) j = byte a j AND byte b j"
  unfolding byte_def by (rule bit_word_eqI) (simp add: bit_simps)
lemma byte_or: "byte (a OR b) j = byte a j OR byte b j"
  unfolding byte_def by (rule bit_word_eqI) (simp add: bit_simps)
lemma byte_xor: "byte (a XOR b) j = byte a j XOR byte b j"
  unfolding byte_def by (rule bit_word_eqI) (simp add: bit_simps)
lemma byte_not: "j < 8 \<Longrightarrow> byte (NOT a) j = NOT (byte a j)"
  unfolding byte_def by (rule bit_word_eqI) (auto simp add: bit_simps)

lemma unat_lt_256: "unat (w :: u8) < 256"
  using unsigned_less [of w, where 'a = nat] by simp

lemma le_val_8:
  "le_val [a, b, c, d, e, f, g, h] =
    a + 256 * (b + 256 * (c + 256 * (d + 256 * (e + 256 * (f + 256 * (g + 256 * h))))))"
  by simp

lemma replicate_8: "replicate 8 x = [x, x, x, x, x, x, x, x]"
  by (simp add: numeral_eq_Suc)

lemma byte_vsign: "j < 8 \<Longrightarrow> byte 0x8080808080808080 j = 0x80"
proof -
  assume j: "j < 8"
  have "unat (0x8080808080808080 :: u64) = le_val (replicate 8 128)"
    by (simp add: replicate_8)
  then have "unat (byte 0x8080808080808080 j) = replicate 8 128 ! j"
    using j by (simp only: unat_byte) (rule le_val_digit, simp_all)
  then have "unat (byte 0x8080808080808080 j) = unat (0x80 :: u8)" using j by simp
  then show ?thesis by (simp only: word_unat_eq_iff)
qed

lemma byte_vone_mult: "j < 8 \<Longrightarrow> byte (0x101010101010101 * ucast (m :: u8)) j = m"
proof -
  assume j: "j < 8"
  have u: "unat (ucast m :: u64) = unat m"
    using unat_lt_256 [of m] by (simp add: unsigned_ucast_eq take_bit_eq_mod)
  have v: "le_val (replicate 8 1) = 0x101010101010101" by (simp add: replicate_8)
  have "0x101010101010101 * unat m \<le> 0x101010101010101 * 255"
    using unat_lt_256 [of m] by (intro mult_le_mono2) simp
  then have "0x101010101010101 * unat m < 2 ^ 64" by simp
  then have "unat (0x101010101010101 * ucast m :: u64) = 0x101010101010101 * unat m"
    by (simp add: unat_word_ariths u)
  also have "\<dots> = unat m * le_val (replicate 8 1)"
    unfolding v by (rule mult.commute)
  finally have "unat (0x101010101010101 * ucast m :: u64) = le_val (replicate 8 (unat m))"
    by (simp only: le_val_replicate [symmetric])
  then have "unat (byte (0x101010101010101 * ucast m) j) = replicate 8 (unat m) ! j"
    using j unat_lt_256 [of m] by (simp only: unat_byte) (rule le_val_digit, simp_all)
  then show ?thesis using j by (simp add: word_unat_eq_iff)
qed

lemma u8_and_80: "(w :: u8) AND 0x80 = 0 \<longleftrightarrow> unat w < 128"
proof -
  have "w AND 0x80 = 0 \<longleftrightarrow> \<not> bit w 7"
    using and_exp_eq_0_iff_not_bit [of w 7] by simp
  also have "\<dots> \<longleftrightarrow> \<not> bit (unat w) 7"
    by (simp add: bit_unsigned_iff)
  also have "\<dots> \<longleftrightarrow> even (unat w div 128)"
    by (simp add: bit_iff_odd)
  also have "\<dots> \<longleftrightarrow> unat w < 128"
  proof (cases "unat w < 128")
    case True
    then show ?thesis by simp
  next
    case False
    have "unat w div 128 = 1"
      by (rule div_nat_eqI) (use False unat_lt_256 [of w] in simp_all)
    with False show ?thesis by simp
  qed
  finally show ?thesis .
qed

lemma byte_zero: "byte 0 j = 0"
  by (simp add: byte_def)

lemma byte_high_clear:
  assumes "X AND 0x8080808080808080 = 0" "j < 8"
  shows "unat (byte X j) < 128"
proof -
  have "byte X j AND byte 0x8080808080808080 j = byte (X AND 0x8080808080808080) j"
    by (simp only: byte_and)
  also have "\<dots> = 0" by (simp only: assms(1) byte_zero)
  finally have "byte X j AND 0x80 = 0" by (simp only: byte_vsign [OF assms(2)])
  then show ?thesis by (simp only: u8_and_80)
qed

lemma le_val_bound: "\<forall>d\<in>set ds. d < 256 \<Longrightarrow> le_val ds < 256 ^ length ds"
  by (induction ds) auto

lemma byte_add_vone:
  assumes X: "X AND 0x8080808080808080 = 0" and j: "j < 8"
  shows "byte (X + 0x101010101010101) j = byte X j + 1"
proof -
  let ?x = "unat X"
  define xs where "xs = map (\<lambda>j. ?x div 256 ^ j mod 256) [0..<8]"
  define ys where "ys = map2 (+) xs (replicate 8 1)"
  have xlt: "?x < 256 ^ 8" using unsigned_less [of X, where 'a = nat] by simp
  have xs: "le_val xs = ?x" unfolding xs_def using xlt by (rule le_val_digits)
  have len: "length xs = 8" "length ys = 8" by (simp_all add: xs_def ys_def)
  have nth: "xs ! i = unat (byte X i)" if "i < 8" for i
    using that by (simp add: xs_def unat_byte del: upt_Suc)
  have ynth: "ys ! i = unat (byte X i) + 1" if "i < 8" for i
    using that nth [OF that] len by (simp add: ys_def)
  have v: "le_val (replicate 8 1) = 0x101010101010101" by (simp add: replicate_8)
  have "le_val ys = le_val xs + le_val (replicate 8 1)"
    unfolding ys_def by (rule le_val_add) (simp add: len)
  then have sum: "le_val ys = ?x + 0x101010101010101" by (simp only: xs v)
  have small: "\<forall>d\<in>set ys. d < 256"
  proof
    fix d assume "d \<in> set ys"
    then obtain i where i: "i < 8" "d = ys ! i" using len by (auto simp: set_conv_nth)
    with byte_high_clear [OF X i(1)] ynth [OF i(1)] show "d < 256" by simp
  qed
  have "le_val ys < 256 ^ length ys" using small by (rule le_val_bound)
  then have "le_val ys < 2 ^ 64" by (simp add: len)
  then have "unat (X + 0x101010101010101) = le_val ys"
    by (simp add: unat_word_ariths sum)
  then have "unat (byte (X + 0x101010101010101) j) = ys ! j"
    using small j len by (simp only: unat_byte) (rule le_val_digit, simp_all)
  also have "\<dots> = unat (byte X j) + 1" using j by (rule ynth)
  finally have "unat (byte (X + 0x101010101010101) j) = unat (byte X j + 1)"
    using byte_high_clear [OF X j] by (simp add: unat_word_ariths)
  then show ?thesis by (simp only: word_unat_eq_iff)
qed

lemma u8_bit7: "bit (w :: u8) 7 \<longleftrightarrow> \<not> unat w < 128"
  using u8_and_80 [of w] and_exp_eq_0_iff_not_bit [of w 7] by simp

lemma u8_low7:
  assumes b: "unat (b :: u8) < 128" and m: "unat (m :: u8) < 128"
  shows "(b XOR NOT m) AND 0x7f = 0x7f \<longleftrightarrow> b = m"
proof -
  have m7: "(0x7f :: u8) = mask 7" by (simp add: mask_eq_exp_minus_1)
  have b7: "\<not> bit b 7" and mm7: "\<not> bit m 7" using b m by (simp_all add: u8_bit7)
  show ?thesis
  proof
    assume eq: "(b XOR NOT m) AND 0x7f = 0x7f"
    show "b = m"
    proof (rule bit_word_eqI)
      fix n assume n: "n < LENGTH(8)"
      show "bit b n = bit m n"
      proof (cases "n < 7")
        case True
        have "bit ((b XOR NOT m) AND mask 7) n = bit (mask 7 :: u8) n" using eq by (simp only: m7)
        with True show ?thesis by (simp add: bit_simps)
      next
        case False
        with n have "n = 7" by simp
        then show ?thesis using b7 mm7 by simp
      qed
    qed
  next
    assume "b = m"
    then show "(b XOR NOT m) AND 0x7f = 0x7f"
      by (simp only: m7) (rule bit_word_eqI, auto simp add: bit_simps)
  qed
qed

lemma u8_hint:
  assumes m: "(m :: u8) < 0x80"
  shows "((b AND 0x80) OR (((b XOR 0x80) AND 0x80) AND (((b XOR NOT m) AND 0x7f) + 1)) \<noteq> 0)
     \<longleftrightarrow> (b = m \<or> b AND 0x80 \<noteq> 0)"
proof (cases "b AND 0x80 = 0")
  case False
  then show ?thesis by (simp add: or_eq_0_iff)
next
  case True
  then have b: "unat b < 128" by (simp only: u8_and_80)
  have mu: "unat m < 128" using m by (simp add: word_less_nat_alt)
  define y where "y = (b XOR NOT m) AND 0x7f"
  have "y AND 0x80 = 0" unfolding y_def by (simp add: and.assoc)
  then have y: "unat y < 128" by (simp only: u8_and_80)
  have bx: "(b XOR 0x80) AND 0x80 = 0x80"
  proof -
    have "(b XOR 0x80) AND 0x80 = (b AND 0x80) XOR 0x80" by (simp add: bit.conj_xor_distrib2)
    then show ?thesis by (simp add: True)
  qed
  have "(0x80 AND (y + 1) \<noteq> 0) \<longleftrightarrow> \<not> unat (y + 1) < 128"
    using u8_and_80 [of "y + 1"] by (simp add: and.commute)
  also have "\<dots> \<longleftrightarrow> unat y = 127" using y by (auto simp add: unat_word_ariths)
  also have "\<dots> \<longleftrightarrow> y = 0x7f" by (simp add: word_unat_eq_iff)
  also have "\<dots> \<longleftrightarrow> b = m" unfolding y_def using b mu by (rule u8_low7)
  finally show ?thesis using True by (simp add: bx y_def)
qed

lemma CalcHint_byte:
  assumes m: "mark < 0x80" and j: "j < 8"
  shows "byte (CalcHint vec mark) j \<noteq> 0 \<longleftrightarrow> byte vec j = mark \<or> byte vec j AND 0x80 \<noteq> 0"
proof -
  define X where "X = (vec XOR NOT (0x101010101010101 * ucast mark)) AND NOT 0x8080808080808080"
  have X: "X AND 0x8080808080808080 = 0" unfolding X_def
    by (simp add: and.assoc)
  have n80: "NOT (0x80 :: u8) = 0x7f" by simp
  have bX: "byte X j = (byte vec j XOR NOT mark) AND 0x7f"
    unfolding X_def
    by (simp only: byte_and byte_xor byte_not [OF j] byte_vone_mult [OF j] byte_vsign [OF j] n80)
  have "byte (CalcHint vec mark) j =
     (byte vec j AND 0x80) OR (((byte vec j XOR 0x80) AND 0x80) AND (((byte vec j XOR NOT mark) AND 0x7f) + 1))"
    unfolding CalcHint_def Let_def X_def [symmetric]
    using j by (simp only: byte_or byte_and byte_xor byte_vsign byte_add_vone [OF X j] bX)
  then show ?thesis using u8_hint [OF m, of "byte vec j"] by simp
qed

text \<open>
  Claim C9. For every 64-bit word \<open>vec\<close> of 8 guide bytes and every 7-bit mark
  (\<open>mark < 0x80\<close>), byte \<open>j\<close> of \<open>CalcHint vec mark\<close> is non-zero if and only if byte \<open>j\<close>
  of \<open>vec\<close> equals the mark or has its high bit set.
\<close>

theorem CalcHint_nonzero_iff:
  "mark < 0x80 \<Longrightarrow> j < 8 \<Longrightarrow>
   (byte (CalcHint vec mark) j \<noteq> 0) = (byte vec j = mark \<or> byte vec j AND 0x80 \<noteq> 0)"
  by (rule CalcHint_byte)

theorem CalcHint_nonzero_iff_witness:
  "(5 :: u8) < 0x80 \<and> (2 :: nat) < 8 \<and>
   (byte (CalcHint 0x0102030405050607 5) 2 \<noteq> 0) =
   (byte 0x0102030405050607 2 = 5 \<or> byte 0x0102030405050607 2 AND 0x80 \<noteq> 0)"
  using CalcHint_nonzero_iff [of 5 2 "0x0102030405050607"] by simp

section \<open>Values of KV_SEPARATED artifacts (SeparatedValue)\<close>

text \<open>A \<^verbatim>\<open>Slice\<close> is a pointer and a length; a pointer is an address (an index into the
  memory) and \<open>None\<close> is \<^verbatim>\<open>nullptr\<close>.\<close>

record Slice =
  ptr :: "nat option"
  len :: u64

definition null_slice :: Slice where
  "null_slice = \<lparr>ptr = None, len = 0\<rparr>"

text \<open>The loop of \<^verbatim>\<open>SeparatedValue\<close>, with \<open>MAX_VALUE_LEN_BIT = 35\<close>. Beside the slice the
  model returns the addresses it has dereferenced, in order.\<close>

function SeparatedValue_loop :: "u8 list \<Rightarrow> nat \<Rightarrow> nat \<Rightarrow> u64 \<Rightarrow> nat \<Rightarrow> Slice \<times> nat list" where
  "SeparatedValue_loop mem end pt ln sft =
    (if sft < 35 then
       if pt \<ge> end then (null_slice, [])
       else
         let b = mem ! pt; pt' = pt + 1 in
         if b AND 0x80 \<noteq> 0 then
           (let (r, reads) = SeparatedValue_loop mem end pt' (ln OR push_bit sft (ucast (b AND 0x7f))) (sft + 7)
            in (r, pt # reads))
         else
           let ln' = ln OR push_bit sft (ucast b) in
           if pt' + unat ln' > end then (null_slice, [pt])
           else (\<lparr>ptr = Some pt', len = ln'\<rparr>, [pt])
     else (null_slice, []))"
  by pat_completeness auto
termination
  by (relation "measure (\<lambda>(mem, end, pt, ln, sft). 35 - sft)") auto

declare SeparatedValue_loop.simps [simp del]

definition SeparatedValue_trace :: "u8 list \<Rightarrow> nat \<Rightarrow> nat \<Rightarrow> Slice \<times> nat list" where
  "SeparatedValue_trace mem pt end = SeparatedValue_loop mem end pt 0 0"

definition SeparatedValue :: "u8 list \<Rightarrow> nat \<Rightarrow> nat \<Rightarrow> Slice" where
  "SeparatedValue mem pt end = fst (SeparatedValue_trace mem pt end)"

text \<open>The number that a sequence of varint bytes encodes: seven bits per byte, least
  significant group first.\<close>

fun varint_val :: "u8 list \<Rightarrow> nat" where
  "varint_val [] = 0"
| "varint_val (b # bs) = unat (b AND 0x7f) + 128 * varint_val bs"


lemma varint_val_bound: "varint_val bs < 128 ^ length bs"
proof (induction bs)
  case Nil
  then show ?case by simp
next
  case (Cons b bs)
  have "b AND 0x7f \<le> 0x7f" by (rule word_and_le1)
  then have "unat (b AND 0x7f) \<le> 127" by (simp add: word_le_nat_alt)
  moreover have "varint_val bs + 1 \<le> 128 ^ length bs" using Cons.IH by simp
  then have "128 * (varint_val bs + 1) \<le> 128 * 128 ^ length bs" by (rule mult_le_mono2)
  ultimately show ?case by simp
qed

lemma varint_val_snoc: "varint_val (bs @ [b]) = varint_val bs + 128 ^ length bs * unat (b AND 0x7f)"
  by (induction bs) (simp_all add: algebra_simps)

lemma unat_or_push:
  fixes ln :: u64 and y :: u8
  assumes ln: "unat ln < 2 ^ s" and s: "s \<le> 28" and y: "unat y < 128"
  shows "unat (ln OR push_bit s (ucast y)) = unat ln + 2 ^ s * unat y"
proof -
  have disj: "ln AND push_bit s (ucast y) = 0"
  proof (rule bit_word_eqI)
    fix n assume "n < LENGTH(64)"
    have "bit ln n \<Longrightarrow> n < s"
    proof (rule ccontr)
      assume b: "bit ln n" and "\<not> n < s"
      then have "2 ^ s \<le> (2::nat) ^ n" by (intro power_increasing) simp_all
      moreover have "2 ^ n \<le> unat ln"
      proof (rule ccontr)
        assume "\<not> 2 ^ n \<le> unat ln"
        then have "unat ln div 2 ^ n = 0" by simp
        moreover have "bit (unat ln) n" using b by (simp add: bit_unsigned_iff)
        ultimately show False by (simp add: bit_iff_odd)
      qed
      ultimately show False using ln by linarith
    qed
    then show "bit (ln AND push_bit s (ucast y)) n = bit (0 :: u64) n"
      by (auto simp add: bit_simps)
  qed
  have "(2::nat) ^ s * unat y < 2 ^ s * 2 ^ 7" using y by simp
  also have "\<dots> = 2 ^ (s + 7)" by (simp add: power_add)
  also have "\<dots> \<le> 2 ^ 35" using s by (intro power_increasing) simp_all
  finally have p35: "(2::nat) ^ s * unat y < 2 ^ 35" .
  have uy: "unat (ucast y :: u64) = unat y"
    using unat_lt_256 [of y] by (simp add: unsigned_ucast_eq take_bit_eq_mod)
  have p64: "unat y * 2 ^ s < 2 ^ 64" using p35 by (simp add: mult.commute)
  have "unat (push_bit s (ucast y) :: u64) = take_bit LENGTH(64) (push_bit s (unat (ucast y :: u64)))"
    by (rule unsigned_push_bit_eq)
  also have "\<dots> = (unat y * 2 ^ s) mod 2 ^ 64"
    by (simp add: uy push_bit_eq_mult take_bit_eq_mod)
  also have "\<dots> = 2 ^ s * unat y"
    by (simp only: mod_less [OF p64] mult.commute)
  finally have up: "unat (push_bit s (ucast y) :: u64) = 2 ^ s * unat y" .
  have "(2::nat) ^ s \<le> 2 ^ 28" using s by (intro power_increasing) simp_all
  then have "unat ln < 2 ^ 28" using ln by simp
  then have "unat ln + 2 ^ s * unat y < 2 ^ 64" using p35 by simp
  then have "unat (ln + push_bit s (ucast y)) = unat ln + 2 ^ s * unat y"
    by (simp add: unat_word_ariths up)
  then show ?thesis using disj by (simp add: disjunctive_add_eq_or)
qed

definition SeparatedValue_post :: "u8 list \<Rightarrow> nat \<Rightarrow> nat \<Rightarrow> Slice \<Rightarrow> bool" where
  "SeparatedValue_post mem pt end r =
    (case ptr r of
       Some p \<Rightarrow>
         (\<exists>j<5. p = pt + j + 1 \<and> (\<forall>i<j. mem ! (pt + i) AND 0x80 \<noteq> 0) \<and> mem ! (pt + j) AND 0x80 = 0
            \<and> unat (len r) = varint_val (take (Suc j) (drop pt mem)) \<and> p + unat (len r) \<le> end)
     | None \<Rightarrow>
         len r = 0 \<and>
         ((\<exists>j<5. pt + j = end \<and> (\<forall>i<j. mem ! (pt + i) AND 0x80 \<noteq> 0))
          \<or> (pt + 5 \<le> end \<and> (\<forall>i<5. mem ! (pt + i) AND 0x80 \<noteq> 0))
          \<or> (\<exists>j<5. pt + j < end \<and> (\<forall>i<j. mem ! (pt + i) AND 0x80 \<noteq> 0) \<and> mem ! (pt + j) AND 0x80 = 0
                \<and> end < pt + j + 1 + varint_val (take (Suc j) (drop pt mem)))))"

lemma u8_low_bits: "(b :: u8) AND 0x80 = 0 \<Longrightarrow> b AND 0x7f = b"
proof -
  assume "b AND 0x80 = 0"
  then have "\<not> bit b 7" using and_exp_eq_0_iff_not_bit [of b 7] by simp
  moreover have "(0x7f :: u8) = mask 7" by (simp add: mask_eq_exp_minus_1)
  ultimately show ?thesis
    by (simp only:) (rule bit_word_eqI, auto simp add: bit_simps less_Suc_eq numeral_eq_Suc)
qed

lemma SeparatedValue_loop_inv:
  assumes "n = 5 - k" "k \<le> 5" "\<forall>i<k. mem ! (pt + i) AND 0x80 \<noteq> 0" "pt + k \<le> end"
    "end \<le> length mem" "unat ln = varint_val (take k (drop pt mem))"
    "SeparatedValue_loop mem end (pt + k) ln (7 * k) = (r, reads)"
  shows "set reads \<subseteq> {pt + k..<end} \<and> SeparatedValue_post mem pt end r"
  using assms
proof (induction n arbitrary: k ln r reads)
  case 0
  then have k: "k = 5" by simp
  with 0 have "r = null_slice" "reads = []" by (simp_all add: SeparatedValue_loop.simps)
  with 0 k show ?case by (simp add: SeparatedValue_post_def null_slice_def)
next
  case (Suc n)
  then have k: "k < 5" by simp
  then have sft: "7 * k < 35" by simp
  show ?case
  proof (cases "pt + k \<ge> end")
    case True
    with Suc.prems have e: "pt + k = end" by simp
    from Suc.prems(7) sft True have "r = null_slice" "reads = []"
      by (simp_all add: SeparatedValue_loop.simps)
    with e k Suc.prems(3) show ?thesis
      by (auto simp add: SeparatedValue_post_def null_slice_def)
  next
    case False
    then have lt: "pt + k < end" by simp
    let ?b = "mem ! (pt + k)"
    have klen: "k < length (drop pt mem)" using lt Suc.prems(5) by simp
    have tk: "take (Suc k) (drop pt mem) = take k (drop pt mem) @ [?b]"
      using klen by (simp add: take_Suc_conv_app_nth)
    have lnlt: "unat ln < 2 ^ (7 * k)"
    proof -
      have "varint_val (take k (drop pt mem)) < 128 ^ length (take k (drop pt mem))"
        by (rule varint_val_bound)
      also have "length (take k (drop pt mem)) = k" using klen by simp
      also have "(128::nat) ^ k = 2 ^ (7 * k)" by (simp add: power_mult)
      finally show ?thesis using Suc.prems(6) by simp
    qed
    have b7: "unat (?b AND 0x7f) < 128"
    proof -
      have "?b AND 0x7f \<le> 0x7f" by (rule word_and_le1)
      then show ?thesis by (simp add: word_le_nat_alt)
    qed
    have k28: "7 * k \<le> 28" using k by simp
    have ln': "unat (ln OR push_bit (7 * k) (ucast (?b AND 0x7f))) = varint_val (take (Suc k) (drop pt mem))"
      using unat_or_push [OF lnlt k28 b7] klen
      by (simp add: tk varint_val_snoc Suc.prems(6) power_mult)
    show ?thesis
    proof (cases "?b AND 0x80 \<noteq> 0")
      case True
      obtain r' reads' where rec0: "SeparatedValue_loop mem end (pt + k + 1) (ln OR push_bit (7 * k) (ucast (?b AND 0x7f))) (7 * k + 7) = (r', reads')"
        by (cases "SeparatedValue_loop mem end (pt + k + 1) (ln OR push_bit (7 * k) (ucast (?b AND 0x7f))) (7 * k + 7)")
      have "pt + Suc k = pt + k + 1" "7 * Suc k = 7 * k + 7" by simp_all
      with rec0 have rec: "SeparatedValue_loop mem end (pt + Suc k) (ln OR push_bit (7 * k) (ucast (?b AND 0x7f))) (7 * Suc k) = (r', reads')"
        by (simp only:)
      from Suc.prems(7) sft lt True rec0 have rr: "r = r'" "reads = (pt + k) # reads'"
        by (simp_all add: SeparatedValue_loop.simps [of mem "end" "pt + k"] Let_def)
      have all: "\<forall>i<Suc k. mem ! (pt + i) AND 0x80 \<noteq> 0"
        using Suc.prems(3) True by (auto simp add: less_Suc_eq)
      have "set reads' \<subseteq> {pt + Suc k..<end} \<and> SeparatedValue_post mem pt end r'"
        using Suc.prems(1) k lt Suc.prems(5)
        by (intro Suc.IH [OF _ _ all _ _ ln' rec]) simp_all
      with rr lt show ?thesis by auto
    next
      case False
      then have bz: "?b AND 0x80 = 0" by simp
      then have beq: "?b AND 0x7f = ?b" by (rule u8_low_bits)
      let ?ln = "ln OR push_bit (7 * k) (ucast ?b)"
      have lnv: "unat ?ln = varint_val (take (Suc k) (drop pt mem))" using ln' by (simp only: beq)
      show ?thesis
      proof (cases "pt + k + 1 + unat ?ln > end")
        case True
        from Suc.prems(7) sft lt bz True have "r = null_slice" "reads = [pt + k]"
          by (simp_all add: SeparatedValue_loop.simps [of mem "end" "pt + k"] Let_def)
        moreover have "\<exists>j<5. pt + j < end \<and> (\<forall>i<j. mem ! (pt + i) AND 0x80 \<noteq> 0) \<and> mem ! (pt + j) AND 0x80 = 0
                \<and> end < pt + j + 1 + varint_val (take (Suc j) (drop pt mem))"
          using k lt Suc.prems(3) bz True lnv by (intro exI [of _ k]) simp
        ultimately show ?thesis using lt by (simp add: SeparatedValue_post_def null_slice_def)
      next
        case False
        from Suc.prems(7) sft lt bz False have "r = \<lparr>ptr = Some (pt + k + 1), len = ?ln\<rparr>" "reads = [pt + k]"
          by (simp_all add: SeparatedValue_loop.simps [of mem "end" "pt + k"] Let_def)
        moreover have "\<exists>j<5. pt + k + 1 = pt + j + 1 \<and> (\<forall>i<j. mem ! (pt + i) AND 0x80 \<noteq> 0) \<and> mem ! (pt + j) AND 0x80 = 0
            \<and> unat ?ln = varint_val (take (Suc j) (drop pt mem)) \<and> pt + k + 1 + unat ?ln \<le> end"
          using k Suc.prems(3) bz False lnv by (intro exI [of _ k]) simp
        ultimately show ?thesis using lt by (simp add: SeparatedValue_post_def)
      qed
    qed
  qed
qed

text \<open>
  Claim C10. \<^verbatim>\<open>SeparatedValue(pt, end)\<close> never reads at or beyond \<open>end\<close>. For every
  \<open>pt \<le> end\<close> (the bytes below \<open>end\<close> being readable) every address it dereferences lies in
  \<open>[pt, end)\<close>, and it returns either a slice \<open>{p, len}\<close> where \<open>p\<close> follows a well-formed
  varint of at most 5 bytes (at most four continuation bytes and a final byte), \<open>len\<close> is the
  number the varint encodes and \<open>p + len \<le> end\<close>; or the null slice, and then the varint is
  truncated by \<open>end\<close>, or it is longer than 5 bytes (its first five bytes all carry the
  continuation bit, so the length exceeds 35 bits), or the payload would extend past \<open>end\<close>.
\<close>
theorem SeparatedValue_within_buffer:
  assumes "pt \<le> end" and "end \<le> length mem"
  shows "set (snd (SeparatedValue_trace mem pt end)) \<subseteq> {pt..<end} \<and>
    (case ptr (SeparatedValue mem pt end) of
       Some p \<Rightarrow>
         (\<exists>j<5. p = pt + j + 1 \<and> (\<forall>i<j. mem ! (pt + i) AND 0x80 \<noteq> 0) \<and> mem ! (pt + j) AND 0x80 = 0
            \<and> unat (len (SeparatedValue mem pt end)) = varint_val (take (Suc j) (drop pt mem))
            \<and> p + unat (len (SeparatedValue mem pt end)) \<le> end)
     | None \<Rightarrow>
         len (SeparatedValue mem pt end) = 0 \<and>
         ((\<exists>j<5. pt + j = end \<and> (\<forall>i<j. mem ! (pt + i) AND 0x80 \<noteq> 0))
          \<or> (pt + 5 \<le> end \<and> (\<forall>i<5. mem ! (pt + i) AND 0x80 \<noteq> 0))
          \<or> (\<exists>j<5. pt + j < end \<and> (\<forall>i<j. mem ! (pt + i) AND 0x80 \<noteq> 0) \<and> mem ! (pt + j) AND 0x80 = 0
                \<and> end < pt + j + 1 + varint_val (take (Suc j) (drop pt mem)))))"
proof -
  obtain r reads where rr: "SeparatedValue_loop mem end (pt + 0) 0 (7 * 0) = (r, reads)"
    by (cases "SeparatedValue_loop mem end (pt + 0) 0 (7 * 0)")
  have post: "set reads \<subseteq> {pt + 0..<end} \<and> SeparatedValue_post mem pt end r"
    using assms by (intro SeparatedValue_loop_inv [OF _ _ _ _ _ _ rr]) simp_all
  have tr: "SeparatedValue_trace mem pt end = (r, reads)"
    using rr by (simp add: SeparatedValue_trace_def)
  have sv: "SeparatedValue mem pt end = r"
    by (simp add: SeparatedValue_def tr)
  show ?thesis using post unfolding sv tr SeparatedValue_post_def by simp
qed

theorem SeparatedValue_within_buffer_witness:
  "(0 :: nat) \<le> 5 \<and> 5 \<le> length [0x83, 0x00, 1, 2, 3 :: u8] \<and>
   set (snd (SeparatedValue_trace [0x83, 0x00, 1, 2, 3] 0 5)) \<subseteq> {0..<5} \<and>
   ptr (SeparatedValue [0x83, 0x00, 1, 2, 3] 0 5) = Some 2 \<and>
   len (SeparatedValue [0x83, 0x00, 1, 2, 3] 0 5) = 3"
  using SeparatedValue_within_buffer [of 0 5 "[0x83, 0x00, 1, 2, 3]"]
  by (simp add: SeparatedValue_def SeparatedValue_trace_def SeparatedValue_loop.simps)

section \<open>Artifact layout and views (ssht.h, internal.h, ssht.cc)\<close>

text \<open>
  \<^verbatim>\<open>Hash\<close> is declared in internal.h and defined outside the files at hand: every function
  that hashes takes it as its first argument. Its arguments are the \<open>len\<close> bytes of the message,
  \<open>len\<close> and the seed.
\<close>

type_synonym hashfn = "u8 list \<Rightarrow> u8 \<Rightarrow> u64 \<Rightarrow> u64"

text \<open>The values of \<^verbatim>\<open>enum Type : uint8_t\<close>.\<close>

definition KEY_SET :: u8 where "KEY_SET = 0"
definition KV_INLINE :: u8 where "KV_INLINE = 1"
definition KV_SEPARATED :: u8 where "KV_SEPARATED = 2"
definition ILLEGAL_TYPE :: u8 where "ILLEGAL_TYPE = 0xff"

definition SSHT_MAGIC :: u32 where "SSHT_MAGIC = 0x54485353"
definition OFFSET_FIELD_SIZE :: nat where "OFFSET_FIELD_SIZE = 6"

text \<open>The 64-byte header without its 32 bytes of padding, and the view a loaded artifact
  is read through. Pointers of a view are indices into the bytes of the loaded file. The fields
  of \<open>Header\<close> carry the prefix \<open>h_\<close> because a view has fields of the same names.\<close>

record Header =
  h_magic :: u32
  h_type :: u8
  h_key_len :: u8
  h_val_len :: u16
  h_seed :: u64
  h_item :: u64
  h_set_cnt :: u64

record View =
  type :: u8
  key_len :: u8
  val_len :: u16
  line_size :: u32
  seed :: u64
  item :: u64
  set_cnt :: Divisor
  guide :: nat
  content :: nat
  extend_ptr :: nat
  space_end :: nat

text \<open>Little-endian loads of 2, 4 and 8 bytes at an address.\<close>

definition load_le :: "u8 list \<Rightarrow> nat \<Rightarrow> nat \<Rightarrow> nat" where
  "load_le mem p n = le_val (map unat (take n (drop p mem)))"

definition load16 :: "u8 list \<Rightarrow> nat \<Rightarrow> u16" where
  "load16 mem p = word_of_nat (load_le mem p 2)"

definition load32 :: "u8 list \<Rightarrow> nat \<Rightarrow> u32" where
  "load32 mem p = word_of_nat (load_le mem p 4)"

definition load64 :: "u8 list \<Rightarrow> nat \<Rightarrow> u64" where
  "load64 mem p = word_of_nat (load_le mem p 8)"

definition read_Header :: "u8 list \<Rightarrow> Header" where
  "read_Header mem =
    \<lparr>h_magic = load32 mem 0, h_type = mem ! 4, h_key_len = mem ! 5, h_val_len = load16 mem 6,
     h_seed = load64 mem 8, h_item = load64 mem 16, h_set_cnt = load64 mem 24\<rparr>"

text \<open>\<^verbatim>\<open>CreateView\<close>: \<open>None\<close> is \<^verbatim>\<open>return false\<close>. The \<^verbatim>\<open>switch\<close> falls through
  from \<open>KV_SEPARATED\<close> to \<open>KV_INLINE\<close> to \<open>KEY_SET\<close>; \<open>slot\<close> and the offsets are
  \<^verbatim>\<open>size_t\<close> values and wrap around at \<open>2^64\<close>.\<close>

definition CreateView :: "u8 list \<Rightarrow> View option" where
  "CreateView mem =
    (let size = length mem; guide_off = 64 in
     if size < guide_off then None
     else
       let header = read_Header mem in
       if h_magic header \<noteq> SSHT_MAGIC \<or> h_set_cnt header = 0 then None
       else
         let slot = (push_bit 6 (h_set_cnt header) :: u64) in
         if h_type header = KV_SEPARATED \<and> h_val_len header \<noteq> word_of_nat OFFSET_FIELD_SIZE then None
         else if (h_type header = KV_SEPARATED \<or> h_type header = KV_INLINE) \<and> h_val_len header = 0 then None
         else if (h_type header = KV_SEPARATED \<or> h_type header = KV_INLINE \<or> h_type header = KEY_SET)
                 \<and> h_key_len header = 0 then None
         else if \<not> (h_type header = KV_SEPARATED \<or> h_type header = KV_INLINE \<or> h_type header = KEY_SET) then None
         else
           let line_size = (ucast (h_key_len header) + ucast (h_val_len header) :: u32);
               content_off = (of_nat guide_off + slot :: u64);
               extend_off = content_off + slot * ucast line_size
           in
           if size < unat extend_off then None
           else if h_type header = KV_SEPARATED \<and> size < unat (extend_off + slot) then None
           else Some \<lparr>type = h_type header, key_len = h_key_len header, val_len = h_val_len header,
                       line_size = line_size, seed = h_seed header, item = h_item header,
                       set_cnt = Divisor_assign (h_set_cnt header),
                       guide = guide_off, content = unat content_off, extend_ptr = unat extend_off,
                       space_end = size\<rparr>)"

section \<open>Lookup (Search, Hashtable::search)\<close>

text \<open>\<^verbatim>\<open>HashKey\<close> returns the set index, the 7-bit mark and the start offset. Set indices
  and slot offsets are natural numbers from here on: they index allocated tables.\<close>

definition HashKey :: "hashfn \<Rightarrow> u8 list \<Rightarrow> u8 \<Rightarrow> u64 \<Rightarrow> Divisor \<Rightarrow> nat \<times> u8 \<times> nat" where
  "HashKey Hash key klen sd cnt =
    (let hash = Hash (take (unat klen) key) klen sd;
         set = Divisor_mod cnt hash;
         mark = (ucast (drop_bit 51 hash AND 0x7f) :: u8);
         sft = (ucast (drop_bit 58 hash) :: u8)
     in (unat set, mark, unat sft))"

definition Equal :: "u8 list \<Rightarrow> u8 list \<Rightarrow> u8 \<Rightarrow> bool" where
  "Equal a b n =
    (if unat n = 8 then load64 a 0 = load64 b 0
     else if unat n = 4 then load32 a 0 = load32 b 0
     else take (unat n) a = take (unat n) b)"

definition ReadOffsetField :: "u8 list \<Rightarrow> nat \<Rightarrow> nat" where
  "ReadOffsetField mem field =
    unat (push_bit 32 (ucast (load16 mem (field + 4)) :: u64) OR ucast (load32 mem field))"

text \<open>\<^verbatim>\<open>__builtin_ctzll\<close>: the index of the lowest set bit (64 at 0, where the builtin is
  undefined; the callers pass non-zero words).\<close>

definition ctzll :: "u64 \<Rightarrow> nat" where
  "ctzll w = length (takeWhile (\<lambda>n. \<not> bit w n) [0..<64])"

text \<open>The macro \<^verbatim>\<open>HANDLE_SLOT\<close>: \<open>Hit p\<close> is \<^verbatim>\<open>return line + key_len\<close>, \<open>Miss\<close> is
  \<^verbatim>\<open>return nullptr\<close> and \<open>Pass\<close> falls through to the next slot.\<close>

datatype probe = Hit nat | Miss | Pass

definition HANDLE_SLOT :: "u8 list \<Rightarrow> View \<Rightarrow> u8 list \<Rightarrow> nat \<Rightarrow> u8 \<Rightarrow> nat \<Rightarrow> probe" where
  "HANDLE_SLOT mem pack key set_idx mark pos =
    (let g = guide pack + set_idx * 64 in
     if mem ! (g + pos) = mark then
       (let line = content pack + (set_idx * 64 + pos) * unat (line_size pack) in
        if Equal key (drop line mem) (key_len pack) then Hit (line + unat (key_len pack)) else Pass)
     else if mem ! (g + pos) AND 0x80 \<noteq> 0 then Miss
     else Pass)"

function hint_loop :: "u8 list \<Rightarrow> View \<Rightarrow> u8 list \<Rightarrow> nat \<Rightarrow> u8 \<Rightarrow> nat \<Rightarrow> u64 \<Rightarrow> probe" where
  "hint_loop mem pack key set_idx mark off hint =
    (if hint \<noteq> 0 then
       (let skip = (word_of_nat ((ctzll hint + 1) div 8) :: u32) - 1 in
        case HANDLE_SLOT mem pack key set_idx mark (unat (word_of_nat off + skip)) of
          Pass \<Rightarrow> hint_loop mem pack key set_idx mark off (hint AND (hint - 1))
        | r \<Rightarrow> r)
     else Pass)"
  by pat_completeness auto
termination
proof (relation "measure (\<lambda>(mem, pack, key, set_idx, mark, off, hint). unat hint)")
  show "wf (measure (\<lambda>(mem, pack, key, set_idx, mark, off, hint). unat hint))" by simp
next
  fix mem :: "u8 list" and pack :: View and key :: "u8 list" and set_idx :: nat and mark :: u8
    and off :: nat and hint :: u64 and x :: nat
  assume h: "hint \<noteq> 0"
  have "hint AND (hint - 1) \<le> hint - 1" by (rule word_and_le1)
  moreover have "hint - 1 < hint" using h by (simp add: word_less_nat_alt measure_unat)
  ultimately have "hint AND (hint - 1) < hint" by simp
  then show "((mem, pack, key, set_idx, mark, off, hint AND (hint - 1)), (mem, pack, key, set_idx, mark, off, hint))
      \<in> measure (\<lambda>(mem, pack, key, set_idx, mark, off, hint). unat hint)"
    by (simp add: word_less_nat_alt)
qed

declare hint_loop.simps [simp del]

function Search_set :: "u8 list \<Rightarrow> View \<Rightarrow> u8 list \<Rightarrow> nat \<Rightarrow> u8 \<Rightarrow> nat \<Rightarrow> nat \<Rightarrow> probe" where
  "Search_set mem pack key set_idx mark sft j =
    (if j < sft + 64 then
       (let off = j mod 64 in
        if j \<le> sft + 56 \<and> off \<le> 56 then
          (case hint_loop mem pack key set_idx mark off
                  (CalcHint (load64 mem (guide pack + set_idx * 64 + off)) mark) of
             Pass \<Rightarrow> Search_set mem pack key set_idx mark sft (j + 8)
           | r \<Rightarrow> r)
        else
          (case HANDLE_SLOT mem pack key set_idx mark off of
             Pass \<Rightarrow> Search_set mem pack key set_idx mark sft (j + 1)
           | r \<Rightarrow> r))
     else Pass)"
  by pat_completeness auto
termination
  by (relation "measure (\<lambda>(mem, pack, key, set_idx, mark, sft, j). sft + 64 - j)") auto

declare Search_set.simps [simp del]

text \<open>The outer \<^verbatim>\<open>while (true)\<close> of \<^verbatim>\<open>Search\<close>; a search that never returns is \<open>None\<close>.
  The inner result \<open>Some None\<close> is \<^verbatim>\<open>nullptr\<close>.\<close>

partial_function (option) Search_from ::
  "u8 list \<Rightarrow> View \<Rightarrow> u8 list \<Rightarrow> u8 \<Rightarrow> nat \<Rightarrow> nat \<Rightarrow> nat option option" where
  "Search_from mem pack key mark sft set_idx =
    (case Search_set mem pack key set_idx mark sft sft of
       Hit p \<Rightarrow> Some (Some p)
     | Miss \<Rightarrow> Some None
     | Pass \<Rightarrow> Search_from mem pack key mark sft
                (if set_idx + 1 \<ge> unat (m_val (set_cnt pack)) then 0 else set_idx + 1))"

definition Search :: "hashfn \<Rightarrow> u8 list \<Rightarrow> View \<Rightarrow> u8 list \<Rightarrow> nat option option" where
  "Search Hash mem pack key =
    (let (set_idx, mark, sft) = HashKey Hash key (key_len pack) (seed pack) (set_cnt pack)
     in Search_from mem pack key mark sft set_idx)"

text \<open>A \<^verbatim>\<open>Hashtable\<close> owns the bytes of its file (\<open>m_res\<close> or \<open>m_mem\<close> in the source,
  here one optional byte list) and a view. \<open>Hashtable_load\<close> is the constructor: its argument is
  the content of the file, \<open>None\<close> when the file cannot be read or mapped. The load policy
  only chooses between mapping and copying.\<close>

record Hashtable =
  m_mem :: "u8 list option"
  m_view :: View

definition default_View :: View where
  "default_View =
    \<lparr>type = ILLEGAL_TYPE, key_len = 0, val_len = 0, line_size = 0, seed = 0, item = 0,
     set_cnt = \<lparr>m_val = 0, m_fac = 0, m_tip = 0, m_sft = 0\<rparr>,
     guide = 0, content = 0, extend_ptr = 0, space_end = 0\<rparr>"

definition Hashtable_load :: "u8 list option \<Rightarrow> Hashtable" where
  "Hashtable_load file =
    (case file of
       None \<Rightarrow> \<lparr>m_mem = None, m_view = default_View\<rparr>
     | Some mem \<Rightarrow>
         (case CreateView mem of
            None \<Rightarrow> \<lparr>m_mem = None, m_view = default_View\<rparr>
          | Some v \<Rightarrow> \<lparr>m_mem = Some mem, m_view = v\<rparr>))"

definition is_null :: "Hashtable \<Rightarrow> bool" where
  "is_null h = (m_mem h = None)"

definition search :: "hashfn \<Rightarrow> Hashtable \<Rightarrow> u8 list option \<Rightarrow> Slice option" where
  "search Hash h key =
    (case m_mem h of
       None \<Rightarrow> Some null_slice
     | Some mem \<Rightarrow>
        (case key of
           None \<Rightarrow> Some null_slice
         | Some k \<Rightarrow>
            (case Search Hash mem (m_view h) k of
               None \<Rightarrow> None
             | Some None \<Rightarrow> Some null_slice
             | Some (Some field) \<Rightarrow>
                 if type (m_view h) \<noteq> KV_SEPARATED
                 then Some \<lparr>ptr = Some field, len = ucast (val_len (m_view h))\<rparr>
                 else Some (SeparatedValue mem (extend_ptr (m_view h) + ReadOffsetField mem field)
                              (space_end (m_view h))))))"

subsection \<open>Count of trailing zeros on hint words\<close>

lemma bit_byte: "i < 8 \<Longrightarrow> bit (byte w j) i = bit w (8 * j + i)"
  by (simp add: byte_def bit_simps)

lemma bit_vsign: "bit (0x8080808080808080 :: u64) n \<longleftrightarrow> n < 64 \<and> n mod 8 = 7"
proof (cases "n < 64")
  case False
  then show ?thesis by (auto dest: bit_imp_le_length)
next
  case True
  let ?j = "n div 8" and ?i = "n mod 8"
  have j: "?j < 8" using True by simp
  have n: "n = 8 * ?j + ?i" by simp
  have "bit (0x8080808080808080 :: u64) (8 * ?j + ?i) = bit (byte 0x8080808080808080 ?j) ?i"
    by (rule bit_byte [symmetric]) simp
  also have "\<dots> = bit (0x80 :: u8) ?i" by (simp only: byte_vsign [OF j])
  also have "\<dots> \<longleftrightarrow> ?i = 7"
  proof -
    have "(0x80 :: u8) = 2 ^ 7" by simp
    then show ?thesis by (simp only: bit_exp_iff) auto
  qed
  finally show ?thesis using True by (simp only: n [symmetric]) simp
qed

lemma and_sign_absorb:
  "((a AND s) OR (((b XOR s) AND s) AND z)) AND s = (a AND s) OR (((b XOR s) AND s) AND z)"
  for a b s z :: u64
  by (rule bit_word_eqI) (auto simp add: bit_or_iff bit_and_iff)

lemma CalcHint_and_sign: "CalcHint vec mark AND 0x8080808080808080 = CalcHint vec mark"
  unfolding CalcHint_def Let_def by (rule and_sign_absorb)

lemma CalcHint_bits: "bit (CalcHint vec mark) n \<Longrightarrow> n < 64 \<and> n mod 8 = 7"
proof -
  assume "bit (CalcHint vec mark) n"
  then have "bit (CalcHint vec mark AND 0x8080808080808080) n" by (simp only: CalcHint_and_sign)
  then have "bit (0x8080808080808080 :: u64) n" by (simp only: bit_and_iff)
  then show ?thesis by (simp only: bit_vsign)
qed

lemma length_takeWhile_less: "x \<in> set xs \<Longrightarrow> \<not> P x \<Longrightarrow> length (takeWhile P xs) < length xs"
  by (induction xs) auto

lemma ctzll_bit: "w \<noteq> 0 \<Longrightarrow> bit w (ctzll w) \<and> ctzll w < 64"
proof -
  assume "w \<noteq> 0"
  then obtain n where n: "bit w n" by (auto simp add: bit_eq_iff)
  then have n64: "n < 64" by (auto dest: bit_imp_le_length)
  let ?P = "\<lambda>n. \<not> bit w n"
  have "n \<in> set [0..<64]" "\<not> ?P n" using n n64 by simp_all
  then have lt: "length (takeWhile ?P [0..<64]) < length [0..<64]"
    by (rule length_takeWhile_less)
  have c: "ctzll w < 64" using lt by (simp add: ctzll_def)
  have "\<not> ?P ([0..<64] ! length (takeWhile ?P [0..<64]))" using lt by (rule nth_length_takeWhile)
  then have "\<not> ?P ([0..<64] ! ctzll w)" by (fold ctzll_def)
  moreover have "[0..<64] ! ctzll w = ctzll w" using c by (simp del: upt_Suc)
  ultimately show ?thesis using c by simp
qed

lemma ctzll_least: "n < ctzll w \<Longrightarrow> \<not> bit w n"
proof -
  assume n: "n < ctzll w"
  let ?P = "\<lambda>n. \<not> bit w n"
  have le: "ctzll w \<le> 64" using length_takeWhile_le [of ?P "[0..<64]"] by (simp add: ctzll_def)
  from n have "n < length (takeWhile ?P [0..<64])" by (simp only: ctzll_def)
  then have "takeWhile ?P [0..<64] ! n \<in> set (takeWhile ?P [0..<64])" by (rule nth_mem)
  then have "?P (takeWhile ?P [0..<64] ! n)" by (rule set_takeWhileD [THEN conjunct2])
  moreover have "takeWhile ?P [0..<64] ! n = [0..<64] ! n"
    using \<open>n < length (takeWhile ?P [0..<64])\<close> by (rule takeWhile_nth)
  ultimately show ?thesis using n le by simp
qed

lemma CalcHint_ctzll:
  "CalcHint vec mark \<noteq> 0 \<Longrightarrow> \<exists>j<8. ctzll (CalcHint vec mark) = 8 * j + 7"
proof -
  assume "CalcHint vec mark \<noteq> 0"
  from ctzll_bit [OF this] CalcHint_bits [of vec mark "ctzll (CalcHint vec mark)"]
  have c: "ctzll (CalcHint vec mark) < 64" "ctzll (CalcHint vec mark) mod 8 = 7" by simp_all
  let ?c = "ctzll (CalcHint vec mark)"
  have "?c = 8 * (?c div 8) + ?c mod 8" by simp
  with c have "?c div 8 < 8 \<and> ?c = 8 * (?c div 8) + 7" by simp
  then show ?thesis by blast
qed

section \<open>Batch lookup (BatchProcess, batch_search, batch_fetch)\<close>

text \<open>
  A pack is a view with the memory it points into. A value pointer handed to the fill callback
  is null, an address in the base, an address in the patch, or the caller's default value.
  A state's \<open>st_pack\<close> tells whether it is bound to the patch.
\<close>

type_synonym Pack = "u8 list \<times> View"

datatype vptr = Null | InBase nat | InPatch nat | Ext "u8 list"

record State =
  st_idx :: nat
  st_sft :: nat
  st_cur :: nat
  st_mark :: u8
  st_set :: nat
  st_line :: "nat option"
  st_pack :: bool

datatype scan = Stage State | Terminator State | EndOfSet State

definition scan_check :: "u8 list \<Rightarrow> View \<Rightarrow> u32 \<Rightarrow> nat \<Rightarrow> State \<Rightarrow> scan option" where
  "scan_check mem pack lsize off st =
    (let g = guide pack + st_set st * 64 in
     if mem ! (g + off) = st_mark st then
       Some (Stage (st\<lparr>st_line := Some (content pack + (st_set st * 64 + off) * unat lsize)\<rparr>))
     else if mem ! (g + off) AND 0x80 \<noteq> 0 then Some (Terminator st)
     else None)"

function Batch_scan :: "u8 list \<Rightarrow> View \<Rightarrow> u32 \<Rightarrow> State \<Rightarrow> scan" where
  "Batch_scan mem pack lsize st =
    (if st_cur st < st_sft st + 64 then
       (let off = st_cur st mod 64 in
        if st_cur st \<le> st_sft st + 56 \<and> off \<le> 56 then
          (let hint = CalcHint (load64 mem (guide pack + st_set st * 64 + off)) (st_mark st) in
           if hint = 0 then Batch_scan mem pack lsize (st\<lparr>st_cur := st_cur st + 8\<rparr>)
           else
             (let step = (ctzll hint + 1) div 8;
                  off' = unat ((word_of_nat off :: u32) + (word_of_nat step - 1));
                  st' = st\<lparr>st_cur := st_cur st + step\<rparr>
              in case scan_check mem pack lsize off' st' of
                   Some r \<Rightarrow> r
                 | None \<Rightarrow> Batch_scan mem pack lsize st'))
        else
          (let st' = st\<lparr>st_cur := st_cur st + 1\<rparr>
           in case scan_check mem pack lsize off st' of
                Some r \<Rightarrow> r
              | None \<Rightarrow> Batch_scan mem pack lsize st'))
     else EndOfSet st)"
  by pat_completeness auto
termination
proof (relation "measure (\<lambda>(mem, pack, lsize, st). st_sft st + 64 - st_cur st)", goal_cases)
  case 1
  show ?case by simp
next
  case (2 mem pack lsize st off hint)
  then show ?case by auto
next
  case (3 mem pack lsize st off hint step off' st')
  from CalcHint_ctzll [of "load64 mem (guide pack + st_set st * 64 + off)" "st_mark st"] 3
  obtain j where "ctzll hint = 8 * j + 7" by auto
  then have "step = j + 1" using 3 by simp
  then have pos: "0 < step" by simp
  have lt: "st_cur st < st_sft st + 64" using 3 by simp
  show ?case unfolding \<open>st' = st\<lparr>st_cur := st_cur st + step\<rparr>\<close> using pos lt by simp
next
  case (4 mem pack lsize st off st')
  then show ?case by auto
qed

declare Batch_scan.simps [simp del]

definition pack_of :: "Pack \<Rightarrow> Pack option \<Rightarrow> bool \<Rightarrow> Pack" where
  "pack_of base patch is_patch = (case patch of Some p \<Rightarrow> if is_patch then p else base | None \<Rightarrow> base)"

definition bind_pipeline :: "hashfn \<Rightarrow> (nat \<Rightarrow> u8 list) \<Rightarrow> View \<Rightarrow> bool \<Rightarrow> nat \<Rightarrow> State" where
  "bind_pipeline Hash get_key pack is_patch i =
    (let (set_idx, mark, sft) = HashKey Hash (get_key i) (key_len pack) (seed pack) (set_cnt pack)
     in \<lparr>st_idx = i, st_sft = sft, st_cur = sft, st_mark = mark, st_set = set_idx,
         st_line = None, st_pack = is_patch\<rparr>)"

definition init_pipeline :: "hashfn \<Rightarrow> (nat \<Rightarrow> u8 list) \<Rightarrow> Pack \<Rightarrow> Pack option \<Rightarrow> nat \<Rightarrow> State" where
  "init_pipeline Hash get_key base patch i =
    (case patch of
       None \<Rightarrow> bind_pipeline Hash get_key (snd base) False i
     | Some p \<Rightarrow> bind_pipeline Hash get_key (snd p) True i)"

datatype action = Next State | Reload vptr bool

definition Batch_visit ::
  "hashfn \<Rightarrow> (nat \<Rightarrow> u8 list) \<Rightarrow> Pack \<Rightarrow> Pack option \<Rightarrow> vptr \<Rightarrow> State \<Rightarrow> action" where
  "Batch_visit Hash get_key base patch dft_val st =
    (let pk = pack_of base patch (st_pack st);
         klen = key_len (snd base);
         lsize = line_size (snd base)
     in case st_line st of
          Some line \<Rightarrow>
            if Equal (get_key (st_idx st)) (drop line (fst pk)) klen
            then Reload (if st_pack st then InPatch (line + unat klen) else InBase (line + unat klen)) True
            else Next (st\<lparr>st_line := None\<rparr>)
        | None \<Rightarrow>
            (case Batch_scan (fst pk) (snd pk) lsize st of
               Stage st' \<Rightarrow> Next st'
             | Terminator st' \<Rightarrow>
                 if st_pack st' \<and> patch \<noteq> None
                 then Next (bind_pipeline Hash get_key (snd base) False (st_idx st'))
                 else Reload dft_val False
             | EndOfSet st' \<Rightarrow>
                 Next (st'\<lparr>st_cur := st_sft st',
                           st_set := (if st_set st' + 1 \<ge> unat (m_val (set_cnt (snd pk))) then 0
                                      else st_set st' + 1)\<rparr>)))"

record 'o Batch =
  b_states :: "State list"
  b_window :: nat
  b_i :: nat
  b_idx :: nat
  b_hit :: nat
  b_out :: 'o

text \<open>The \<^verbatim>\<open>while (window > 0)\<close> loop with its inner \<^verbatim>\<open>for\<close> loop, one visit of a
  state per step. \<open>Batch_env\<close> holds what the loop does not change, \<open>Batch\<close> what it does.\<close>

record 'o Batch_env =
  e_Hash :: hashfn
  e_get_key :: "nat \<Rightarrow> u8 list"
  e_fill_val :: "nat \<Rightarrow> vptr \<Rightarrow> 'o \<Rightarrow> 'o"
  e_batch :: nat
  e_base :: Pack
  e_patch :: "Pack option"
  e_dft_val :: vptr

partial_function (option) Batch_loop :: "'o Batch_env \<Rightarrow> 'o Batch \<Rightarrow> (nat \<times> 'o) option" where
  "Batch_loop e c =
    (if b_window c = 0 then Some (b_hit c, b_out c)
     else if b_i c \<ge> b_window c then Batch_loop e (c\<lparr>b_i := 0\<rparr>)
     else
       (case Batch_visit (e_Hash e) (e_get_key e) (e_base e) (e_patch e) (e_dft_val e) (b_states c ! b_i c) of
          Next st' \<Rightarrow> Batch_loop e (c\<lparr>b_states := (b_states c)[b_i c := st'], b_i := b_i c + 1\<rparr>)
        | Reload v h \<Rightarrow>
            if b_idx c < e_batch e then
              Batch_loop e
                (c\<lparr>b_hit := (if h then b_hit c + 1 else b_hit c),
                   b_out := e_fill_val e (st_idx (b_states c ! b_i c)) v (b_out c),
                   b_states := (b_states c)[b_i c := init_pipeline (e_Hash e) (e_get_key e) (e_base e) (e_patch e) (b_idx c)],
                   b_idx := b_idx c + 1, b_i := b_i c + 1\<rparr>)
            else
              Batch_loop e
                (c\<lparr>b_hit := (if h then b_hit c + 1 else b_hit c),
                   b_out := e_fill_val e (st_idx (b_states c ! b_i c)) v (b_out c),
                   b_states := (b_states c)[b_i c := b_states c ! (b_window c - 1)],
                   b_window := b_window c - 1\<rparr>)))"

text \<open>The patch argument is a pointer: null, the base itself, or another table.\<close>

datatype 'a patch_arg = NoPatch | SelfPatch | OtherPatch 'a

definition BatchProcess ::
  "hashfn \<Rightarrow> nat \<Rightarrow> Pack \<Rightarrow> Pack patch_arg \<Rightarrow> (nat \<Rightarrow> u8 list) \<Rightarrow> (nat \<Rightarrow> vptr \<Rightarrow> 'o \<Rightarrow> 'o) \<Rightarrow> vptr
     \<Rightarrow> 'o \<Rightarrow> (nat \<times> 'o) option" where
  "BatchProcess Hash batch base patch get_key fill_val dft_val out =
    (if type (snd base) = KV_SEPARATED
        \<or> (case patch of
              OtherPatch p \<Rightarrow> type (snd p) \<noteq> type (snd base) \<or> key_len (snd p) \<noteq> key_len (snd base)
                               \<or> val_len (snd p) \<noteq> val_len (snd base)
            | _ \<Rightarrow> False)
     then Some (0, out)
     else
       (let patch' = (case patch of OtherPatch p \<Rightarrow> Some p | _ \<Rightarrow> None);
            window = min batch 16
        in Batch_loop
             \<lparr>e_Hash = Hash, e_get_key = get_key, e_fill_val = fill_val, e_batch = batch,
              e_base = base, e_patch = patch', e_dft_val = dft_val\<rparr>
             \<lparr>b_states = map (init_pipeline Hash get_key base patch') [0..<window],
              b_window = window, b_i = 0, b_idx = window, b_hit = 0, b_out = out\<rparr>))"

definition empty_mem_pack :: "Hashtable \<Rightarrow> Pack" where
  "empty_mem_pack h = (case m_mem h of Some mem \<Rightarrow> (mem, m_view h) | None \<Rightarrow> ([], m_view h))"

text \<open>\<^verbatim>\<open>batch_search\<close> and \<^verbatim>\<open>batch_fetch\<close>. In \<^verbatim>\<open>batch_fetch\<close> the offsets
  \<^verbatim>\<open>idx*key_len\<close> and \<^verbatim>\<open>idx*val_len\<close> are products of 32-bit unsigned values and wrap
  around at \<open>2^32\<close>.\<close>

definition batch_search ::
  "hashfn \<Rightarrow> Hashtable \<Rightarrow> nat \<Rightarrow> u8 list list option \<Rightarrow> vptr list option \<Rightarrow> Hashtable patch_arg
     \<Rightarrow> (nat \<times> vptr list option) option" where
  "batch_search Hash h batch keys out patch =
    (case (m_mem h, keys, out) of
       (Some mem, Some ks, Some os) \<Rightarrow>
         (case BatchProcess Hash batch (mem, m_view h)
                 (case patch of NoPatch \<Rightarrow> NoPatch | SelfPatch \<Rightarrow> SelfPatch
                  | OtherPatch p \<Rightarrow> OtherPatch (empty_mem_pack p))
                 (\<lambda>i. ks ! i) (\<lambda>i v os. os[i := v]) Null os of
            None \<Rightarrow> None
          | Some (hit, os') \<Rightarrow> Some (hit, Some os'))
     | _ \<Rightarrow> Some (0, out))"

definition vptr_bytes :: "Pack \<Rightarrow> Pack option \<Rightarrow> vptr \<Rightarrow> u8 list" where
  "vptr_bytes base patch v =
    (case v of
       Null \<Rightarrow> []
     | InBase p \<Rightarrow> drop p (fst base)
     | InPatch p \<Rightarrow> (case patch of Some pk \<Rightarrow> drop p (fst pk) | None \<Rightarrow> [])
     | Ext bs \<Rightarrow> bs)"

definition memcpy :: "u8 list \<Rightarrow> nat \<Rightarrow> u8 list \<Rightarrow> nat \<Rightarrow> u8 list" where
  "memcpy dst at src n = take at dst @ take n src @ drop (at + n) dst"

definition batch_fetch ::
  "hashfn \<Rightarrow> Hashtable \<Rightarrow> nat \<Rightarrow> u8 list option \<Rightarrow> u8 list option \<Rightarrow> u8 list option
     \<Rightarrow> Hashtable patch_arg \<Rightarrow> (nat \<times> u8 list option) option" where
  "batch_fetch Hash h batch keys data dft_val patch =
    (case (m_mem h, keys, data) of
       (Some mem, Some ks, Some ds) \<Rightarrow>
         if type (m_view h) \<noteq> KV_INLINE then Some (0, data)
         else
           (let klen = unat (key_len (m_view h));
                vlen = unat (val_len (m_view h));
                pp = (case patch of NoPatch \<Rightarrow> NoPatch | SelfPatch \<Rightarrow> SelfPatch
                      | OtherPatch p \<Rightarrow> OtherPatch (empty_mem_pack p));
                pk = (case pp of OtherPatch p \<Rightarrow> Some p | _ \<Rightarrow> None)
            in case BatchProcess Hash batch (mem, m_view h) pp
                 (\<lambda>i. drop ((i * klen) mod 2 ^ 32) ks)
                 (\<lambda>i v ds. if v \<noteq> Null
                    then memcpy ds ((i * vlen) mod 2 ^ 32) (vptr_bytes (mem, m_view h) pk v) vlen else ds)
                 (case dft_val of None \<Rightarrow> Null | Some d \<Rightarrow> Ext d) ds of
                 None \<Rightarrow> None
               | Some (hit, ds') \<Rightarrow> Some (hit, Some ds'))
     | _ \<Rightarrow> Some (0, data))"

lemma load_le_append: "p + n \<le> length a \<Longrightarrow> load_le (a @ b) p n = load_le a p n"
  by (simp add: load_le_def)

lemma read_Header_append: "32 \<le> length a \<Longrightarrow> read_Header (a @ b) = read_Header a"
  by (simp add: read_Header_def load16_def load32_def load64_def load_le_append nth_append)

definition bad_key_set_header :: "u8 list" where
  "bad_key_set_header =
     [0x53, 0x53, 0x48, 0x54, 0, 1, 5, 0,  0, 0, 0, 0, 0, 0, 0, 0,
      0, 0, 0, 0, 0, 0, 0, 0,  1, 0, 0, 0, 0, 0, 0, 0]"

definition bad_key_set_file :: "u8 list" where
  "bad_key_set_file = bad_key_set_header @ replicate 32 0 @ replicate 64 0xff @ replicate 384 0"

lemma len_bad: "length bad_key_set_file = 512"
  by (simp add: bad_key_set_file_def bad_key_set_header_def)

lemma hdr_bad0: "read_Header bad_key_set_header =
  \<lparr>h_magic = 0x54485353, h_type = 0, h_key_len = 1, h_val_len = 5, h_seed = 0, h_item = 0, h_set_cnt = 1\<rparr>"
  by (simp add: bad_key_set_header_def read_Header_def load16_def load32_def load64_def load_le_def)

lemma hdr_bad: "read_Header bad_key_set_file =
  \<lparr>h_magic = 0x54485353, h_type = 0, h_key_len = 1, h_val_len = 5, h_seed = 0, h_item = 0, h_set_cnt = 1\<rparr>"
  unfolding bad_key_set_file_def
  by (subst read_Header_append) (simp_all add: hdr_bad0, simp add: bad_key_set_header_def)

lemma cv_bad: "CreateView bad_key_set_file \<noteq> None"
  by (simp add: CreateView_def len_bad hdr_bad Let_def SSHT_MAGIC_def KV_SEPARATED_def KV_INLINE_def KEY_SET_def)

lemma unat_ucast_8_32: "unat (ucast (w :: u8) :: u32) = unat w"
proof -
  have "unat w < 2 ^ 32" using unat_lt_256 [of w] by simp
  then show ?thesis by (simp add: unsigned_ucast_eq take_bit_eq_mod)
qed

lemma unat_lt_65536: "unat (w :: u16) < 65536"
  using unsigned_less [of w, where 'a = nat] by simp

lemma unat_ucast_16_32: "unat (ucast (w :: u16) :: u32) = unat w"
proof -
  have "unat w < 2 ^ 32" using unat_lt_65536 [of w] by simp
  then show ?thesis by (simp add: unsigned_ucast_eq take_bit_eq_mod)
qed

lemma unat_ucast_32_64: "unat (ucast (w :: u32) :: u64) = unat w"
proof -
  have "unat w < 2 ^ 32" using unsigned_less [of w, where 'a = nat] by simp
  then have "unat w < 2 ^ 64" by simp
  then show ?thesis by (simp add: unsigned_ucast_eq take_bit_eq_mod)
qed

lemma unat_line_size: "unat (ucast (kl :: u8) + ucast (vl :: u16) :: u32) = unat kl + unat vl"
  using unat_lt_256 [of kl] unat_lt_65536 [of vl]
  by (simp add: unat_word_ariths unat_ucast_8_32 unat_ucast_16_32)

section \<open>Validation on load\<close>

lemma CreateView_sizes:
  fixes c :: u64 and kl :: u8 and vl :: u16
  assumes "64 + unat c * 64 + unat c * 64 * (unat kl + unat vl) < 2 ^ 64"
  shows "unat (push_bit 6 c) = unat c * 64"
    and "unat (64 + push_bit 6 c) = 64 + unat c * 64"
    and "unat (64 + push_bit 6 c + push_bit 6 c * ucast (ucast kl + ucast vl :: u32))
          = 64 + unat c * 64 + unat c * 64 * (unat kl + unat vl)"
proof -
  let ?S = "unat c * 64" and ?L = "unat kl + unat vl"
  have tot: "64 + ?S + ?S * ?L < 2 ^ 64" using assms .
  then have S: "?S < 2 ^ 64" by simp
  have "unat (push_bit 6 c) = take_bit LENGTH(64) (push_bit 6 (unat c))" by (rule unsigned_push_bit_eq)
  then show 1: "unat (push_bit 6 c) = ?S" using S by (simp add: push_bit_eq_mult take_bit_eq_mod)
  have "64 + ?S < 2 ^ 64" using tot by simp
  then show 2: "unat (64 + push_bit 6 c) = 64 + ?S" by (simp add: unat_word_ariths 1)
  have ls: "unat (ucast (ucast kl + ucast vl :: u32) :: u64) = ?L"
    by (simp only: unat_ucast_32_64 unat_line_size)
  have "?S * ?L < 2 ^ 64" using tot by simp
  then have m: "unat (push_bit 6 c * ucast (ucast kl + ucast vl :: u32)) = ?S * ?L"
    by (simp only: unat_word_ariths 1 ls) simp
  show "unat (64 + push_bit 6 c + push_bit 6 c * ucast (ucast kl + ucast vl :: u32)) = 64 + ?S + ?S * ?L"
    using tot by (simp only: unat_word_ariths(1) [of "64 + push_bit 6 c"] 2 m) simp
qed

lemma CreateView_size_extend:
  fixes c :: u64 and kl :: u8 and vl :: u16
  assumes "64 + unat c * 64 + unat c * 64 * (unat kl + unat vl) + unat c * 64 < 2 ^ 64"
  shows "unat (64 + push_bit 6 c + push_bit 6 c * ucast (ucast kl + ucast vl :: u32) + push_bit 6 c)
          = 64 + unat c * 64 + unat c * 64 * (unat kl + unat vl) + unat c * 64"
proof -
  have a: "64 + unat c * 64 + unat c * 64 * (unat kl + unat vl) < 2 ^ 64" using assms by simp
  show ?thesis
    using assms
    by (simp only: unat_word_ariths(1) [of _ "push_bit 6 c"] CreateView_sizes(1,3) [OF a]) simp
qed

text \<open>The validations of \<^verbatim>\<open>CreateView\<close> that read the header only.\<close>

definition header_valid :: "Header \<Rightarrow> bool" where
  "header_valid header \<longleftrightarrow>
     h_magic header = SSHT_MAGIC
     \<and> h_set_cnt header \<noteq> 0
     \<and> h_type header \<in> {KEY_SET, KV_INLINE, KV_SEPARATED}
     \<and> h_key_len header \<noteq> 0
     \<and> (h_type header = KV_INLINE \<longrightarrow> h_val_len header \<noteq> 0)
     \<and> (h_type header = KV_SEPARATED \<longrightarrow> h_val_len header = 6)"

lemma CreateView_header:
  "CreateView mem \<noteq> None \<Longrightarrow> 64 \<le> length mem \<and> header_valid (read_Header mem)"
  unfolding CreateView_def Let_def OFFSET_FIELD_SIZE_def header_valid_def
  by (auto simp add: KEY_SET_def KV_INLINE_def KV_SEPARATED_def not_less split: if_splits)

lemma CreateView_iff:
  assumes nowrap: "64 + unat (h_set_cnt (read_Header mem)) * 64
       + unat (h_set_cnt (read_Header mem)) * 64
         * (unat (h_key_len (read_Header mem)) + unat (h_val_len (read_Header mem)))
       + (if h_type (read_Header mem) = KV_SEPARATED then unat (h_set_cnt (read_Header mem)) * 64 else 0)
       < 2 ^ 64"
  shows "CreateView mem \<noteq> None \<longleftrightarrow>
    (64 \<le> length mem \<and> header_valid (read_Header mem)
     \<and> 64 + unat (h_set_cnt (read_Header mem)) * 64
          + unat (h_set_cnt (read_Header mem)) * 64
            * (unat (h_key_len (read_Header mem)) + unat (h_val_len (read_Header mem)))
          + (if h_type (read_Header mem) = KV_SEPARATED then unat (h_set_cnt (read_Header mem)) * 64 else 0)
         \<le> length mem)"
proof (cases "h_type (read_Header mem) = KV_SEPARATED")
  case True
  have a: "64 + unat (h_set_cnt (read_Header mem)) * 64
       + unat (h_set_cnt (read_Header mem)) * 64
         * (unat (h_key_len (read_Header mem)) + unat (h_val_len (read_Header mem)))
       + unat (h_set_cnt (read_Header mem)) * 64 < 2 ^ 64"
    using nowrap True by simp
  then have b: "64 + unat (h_set_cnt (read_Header mem)) * 64
       + unat (h_set_cnt (read_Header mem)) * 64
         * (unat (h_key_len (read_Header mem)) + unat (h_val_len (read_Header mem))) < 2 ^ 64"
    by simp
  note sz = CreateView_sizes [OF b] CreateView_size_extend [OF a]
  show ?thesis
    unfolding CreateView_def Let_def OFFSET_FIELD_SIZE_def header_valid_def
    using True
    by (simp only: sz of_nat_numeral) (auto simp add: KEY_SET_def KV_INLINE_def KV_SEPARATED_def not_less)
next
  case False
  have b: "64 + unat (h_set_cnt (read_Header mem)) * 64
       + unat (h_set_cnt (read_Header mem)) * 64
         * (unat (h_key_len (read_Header mem)) + unat (h_val_len (read_Header mem))) < 2 ^ 64"
    using nowrap False by simp
  note sz = CreateView_sizes [OF b]
  show ?thesis
    unfolding CreateView_def Let_def OFFSET_FIELD_SIZE_def header_valid_def
    using False
    by (simp only: sz of_nat_numeral) (auto simp add: KEY_SET_def KV_INLINE_def KV_SEPARATED_def not_less)
qed

lemma null_handle_misses:
  "is_null h \<Longrightarrow>
     search Hash h key = Some null_slice
     \<and> batch_search Hash h batch keys out patch = Some (0, out)
     \<and> batch_fetch Hash h batch packed_keys data dft_val patch = Some (0, data)"
  by (simp add: is_null_def search_def batch_search_def batch_fetch_def)

lemma Hashtable_load_null: "is_null (Hashtable_load (Some mem)) \<longleftrightarrow> CreateView mem = None"
  by (simp add: is_null_def Hashtable_load_def split: option.splits)

text \<open>
  Claim C5, as stated, fails: loading does not validate \<open>val_len = 0\<close> for \<open>KEY_SET\<close>.
  The file \<open>bad_key_set_file\<close> has type \<open>KEY_SET\<close>, \<open>key_len = 1\<close>, \<open>val_len = 5\<close>,
  one set and 512 bytes; its handle is not null.
\<close>

theorem load_accepts_key_set_with_value_length:
  "\<not> is_null (Hashtable_load (Some bad_key_set_file))
   \<and> h_type (read_Header bad_key_set_file) = KEY_SET
   \<and> h_val_len (read_Header bad_key_set_file) \<noteq> 0"
  by (simp add: Hashtable_load_null cv_bad hdr_bad KEY_SET_def)

text \<open>
  Claim C5, amended. A file loads only if its size is at least the 64-byte header, the magic
  number is right, \<open>set_cnt\<close> is non-zero, the type is \<open>KEY_SET\<close>, \<open>KV_INLINE\<close> or
  \<open>KV_SEPARATED\<close>, \<open>key_len\<close> is non-zero, \<open>val_len > 0\<close> for \<open>KV_INLINE\<close> and
  \<open>val_len = 6\<close> for \<open>KV_SEPARATED\<close> (nothing is asked of \<open>val_len\<close> for \<open>KEY_SET\<close>): this
  holds of every file. Where the sum of header, guide, content and (for \<open>KV_SEPARATED\<close>)
  \<open>slot\<close> further bytes stays below \<open>2^64\<close>, the file loads exactly when, in addition, its
  size covers that sum. Whenever the handle is null (the file could not be read, or a
  validation failed), \<open>search\<close> returns the empty slice and \<open>batch_search\<close> and
  \<open>batch_fetch\<close> return 0 and leave the output as it was.
\<close>

theorem load_validation:
  "(\<not> is_null (Hashtable_load (Some mem)) \<longrightarrow> 64 \<le> length mem \<and> header_valid (read_Header mem))
   \<and> (64 + unat (h_set_cnt (read_Header mem)) * 64
        + unat (h_set_cnt (read_Header mem)) * 64
          * (unat (h_key_len (read_Header mem)) + unat (h_val_len (read_Header mem)))
        + (if h_type (read_Header mem) = KV_SEPARATED then unat (h_set_cnt (read_Header mem)) * 64 else 0)
        < 2 ^ 64 \<longrightarrow>
       (\<not> is_null (Hashtable_load (Some mem)) \<longleftrightarrow>
          64 \<le> length mem \<and> header_valid (read_Header mem)
          \<and> 64 + unat (h_set_cnt (read_Header mem)) * 64
               + unat (h_set_cnt (read_Header mem)) * 64
                 * (unat (h_key_len (read_Header mem)) + unat (h_val_len (read_Header mem)))
               + (if h_type (read_Header mem) = KV_SEPARATED then unat (h_set_cnt (read_Header mem)) * 64 else 0)
              \<le> length mem))
   \<and> (is_null (Hashtable_load file) \<longrightarrow>
         search Hash (Hashtable_load file) key = Some null_slice
         \<and> batch_search Hash (Hashtable_load file) batch keys out patch = Some (0, out)
         \<and> batch_fetch Hash (Hashtable_load file) batch packed_keys data dft_val patch = Some (0, data))"
  using CreateView_header [of mem] CreateView_iff [of mem] null_handle_misses [of "Hashtable_load file"]
  by (simp only: Hashtable_load_null) blast

text \<open>A \<open>KV_INLINE\<close> file with one set, \<open>key_len = 1\<close> and \<open>val_len = 1\<close> needs
  \<open>64 + 64 + 64 * 2 = 256\<close> bytes: \<open>inline_file\<close> has them, \<open>short_inline_file\<close> lacks one.\<close>

definition inline_header :: "u8 list" where
  "inline_header =
     [0x53, 0x53, 0x48, 0x54, 1, 1, 1, 0,  0, 0, 0, 0, 0, 0, 0, 0,
      0, 0, 0, 0, 0, 0, 0, 0,  1, 0, 0, 0, 0, 0, 0, 0]"

definition inline_file :: "u8 list" where
  "inline_file = inline_header @ replicate 32 0 @ replicate 64 0xff @ replicate 128 0"

definition short_inline_file :: "u8 list" where
  "short_inline_file = inline_header @ replicate 32 0 @ replicate 64 0xff @ replicate 127 0"

lemma hdr_inline0: "read_Header inline_header =
  \<lparr>h_magic = 0x54485353, h_type = 1, h_key_len = 1, h_val_len = 1, h_seed = 0, h_item = 0, h_set_cnt = 1\<rparr>"
  by (simp add: inline_header_def read_Header_def load16_def load32_def load64_def load_le_def)

lemma hdr_inline:
  "read_Header inline_file =
    \<lparr>h_magic = 0x54485353, h_type = 1, h_key_len = 1, h_val_len = 1, h_seed = 0, h_item = 0, h_set_cnt = 1\<rparr>"
  "read_Header short_inline_file =
    \<lparr>h_magic = 0x54485353, h_type = 1, h_key_len = 1, h_val_len = 1, h_seed = 0, h_item = 0, h_set_cnt = 1\<rparr>"
  unfolding inline_file_def short_inline_file_def
  by (subst read_Header_append, simp add: inline_header_def, rule hdr_inline0)+

lemma len_inline: "length inline_file = 256" "length short_inline_file = 255"
  by (simp_all add: inline_file_def short_inline_file_def inline_header_def)

theorem load_validation_witness:
  "\<not> is_null (Hashtable_load (Some inline_file))
   \<and> is_null (Hashtable_load (Some short_inline_file))
   \<and> search (\<lambda>msg n sd. 0) (Hashtable_load (Some short_inline_file)) (Some [1]) = Some null_slice
   \<and> batch_search (\<lambda>msg n sd. 0) (Hashtable_load (Some short_inline_file)) 1 (Some [ [1] ]) (Some [InBase 3]) NoPatch
        = Some (0, Some [InBase 3])
   \<and> batch_fetch (\<lambda>msg n sd. 0) (Hashtable_load (Some short_inline_file)) 1 (Some [1]) (Some [7]) (Some [9]) NoPatch
        = Some (0, Some [7])"
proof -
  have v: "header_valid (read_Header inline_file)" "header_valid (read_Header short_inline_file)"
    by (simp_all add: hdr_inline header_valid_def SSHT_MAGIC_def KEY_SET_def KV_INLINE_def KV_SEPARATED_def)
  have a: "\<not> is_null (Hashtable_load (Some inline_file))"
    using load_validation [of inline_file] v(1)
    by (simp add: hdr_inline len_inline KV_SEPARATED_def)
  have b: "is_null (Hashtable_load (Some short_inline_file))"
    using load_validation [of short_inline_file] v(2)
    by (simp add: hdr_inline len_inline KV_SEPARATED_def)
  from load_validation [of short_inline_file "Some short_inline_file" "\<lambda>msg n sd. 0" "Some [1]" 1
      "Some [ [1] ]" "Some [InBase 3]" NoPatch "Some [1]" "Some [7]" "Some [9]"] a b
  show ?thesis by blast
qed

section \<open>The builder's per-key mapping (Mapping, CalcSetCnt)\<close>

text \<open>
  \<^verbatim>\<open>Mapping\<close> places one key in the guide and content arrays under construction. The
  model is the code run by one thread with no other thread at work: the load of a guide byte
  followed by \<^verbatim>\<open>UpdateCAS\<close> from \<open>0xff\<close> to \<open>0x80\<close> succeeds whenever the byte is \<open>0xff\<close>,
  and \<^verbatim>\<open>fill\<close> and \<^verbatim>\<open>StoreRelease\<close> leave the mark in the guide byte and the record in the
  line. A byte with the high bit set other than \<open>0xff\<close> is a slot reserved by an install
  that has not stored its mark yet: \<^verbatim>\<open>while (m & 0x80U)\<close> reads it again until it changes, and
  with nobody to change it the loop does not end (\<open>Spin\<close>).

  Slot indices and line addresses are natural numbers: they index the two allocated arrays.
  The arguments that stay fixed during one call are gathered in a record: \<open>line_size\<close>,
  \<open>key_len\<close>, \<open>set_cnt\<close>, the key, the \<^verbatim>\<open>fill\<close> callback (from the address of a line and
  the content array to the content array with the line written), and the mark and start
  offset that \<^verbatim>\<open>HashKey\<close> returned.
\<close>

datatype mapped = Installed "u8 list" "u8 list" | Duplicate | Spin | NextSet

record Mapping_args =
  a_line_size :: nat
  a_key_len :: u8
  a_set_cnt :: Divisor
  a_key :: "u8 list"
  a_fill :: "nat \<Rightarrow> u8 list \<Rightarrow> u8 list"
  a_mark :: u8
  a_sft :: nat

text \<open>The loop \<^verbatim>\<open>for (unsigned j = sft; j < sft+64U; j++)\<close> over one set, from \<open>j\<close> on.\<close>

function Mapping_set :: "u8 list \<Rightarrow> u8 list \<Rightarrow> Mapping_args \<Rightarrow> nat \<Rightarrow> nat \<Rightarrow> mapped" where
  "Mapping_set gd sp a set_idx j =
    (if j < a_sft a + 64 then
       (let off = j mod 64;
            line = (set_idx * 64 + off) * a_line_size a;
            m = gd ! (set_idx * 64 + off)
        in if m = 0xff then
             Installed (gd[set_idx * 64 + off := a_mark a]) (a_fill a line sp)
           else if m AND 0x80 \<noteq> 0 then Spin
           else if m = a_mark a \<and> Equal (drop line sp) (a_key a) (a_key_len a) then Duplicate
           else Mapping_set gd sp a set_idx (j + 1))
     else NextSet)"
  by pat_completeness auto
termination
  by (relation "measure (\<lambda>(gd, sp, a, set_idx, j). a_sft a + 64 - j)") auto

declare Mapping_set.simps [simp del]

text \<open>The outer \<^verbatim>\<open>while (true)\<close> from set \<open>set_idx\<close> on: \<open>Some (True, guide, space)\<close> is
  \<^verbatim>\<open>return true\<close> with the arrays as the call leaves them, \<open>Some (False, guide, space)\<close> is
  \<^verbatim>\<open>return false\<close>, and \<open>None\<close> is a call that never returns.\<close>

partial_function (option) Mapping_from ::
  "u8 list \<Rightarrow> u8 list \<Rightarrow> Mapping_args \<Rightarrow> nat \<Rightarrow> (bool \<times> u8 list \<times> u8 list) option" where
  "Mapping_from gd sp a set_idx =
    (case Mapping_set gd sp a set_idx (a_sft a) of
       Installed g s \<Rightarrow> Some (True, g, s)
     | Duplicate \<Rightarrow> Some (False, gd, sp)
     | Spin \<Rightarrow> None
     | NextSet \<Rightarrow>
         Mapping_from gd sp a (if set_idx + 1 \<ge> unat (m_val (a_set_cnt a)) then 0 else set_idx + 1))"

definition Mapping ::
  "hashfn \<Rightarrow> u8 list \<Rightarrow> u8 list \<Rightarrow> Header \<Rightarrow> Divisor \<Rightarrow> u8 list \<Rightarrow> (nat \<Rightarrow> u8 list \<Rightarrow> u8 list)
     \<Rightarrow> (bool \<times> u8 list \<times> u8 list) option" where
  "Mapping Hash gd sp header cnt key fill =
    (let line_size = unat (h_key_len header) + unat (h_val_len header);
         (set_idx, mark, sft) = HashKey Hash key (h_key_len header) (h_seed header) cnt
     in Mapping_from gd sp
          \<lparr>a_line_size = line_size, a_key_len = h_key_len header, a_set_cnt = cnt, a_key = key,
           a_fill = fill, a_mark = mark, a_sft = sft\<rparr> set_idx)"

text \<open>\<^verbatim>\<open>CalcSetCnt\<close>, on \<^verbatim>\<open>size_t\<close>, with \<^verbatim>\<open>constexpr unsigned RESERVE_FACTOR = 16\<close>
  converted to \<^verbatim>\<open>size_t\<close> where it meets the item count.\<close>

definition RESERVE_FACTOR :: u32 where "RESERVE_FACTOR = 16"

definition CalcSetCnt :: "u64 \<Rightarrow> u64" where
  "CalcSetCnt n =
    (let reserved = (n + ucast (RESERVE_FACTOR - 1)) div ucast RESERVE_FACTOR
     in (((n + reserved + 63) div 64) AND NOT 1) + 1)"

subsection \<open>The probe order within a set\<close>

text \<open>The \<open>i\<close>-th slot that \<^verbatim>\<open>Mapping\<close> visits in set \<open>set_idx\<close> is at offset
  \<open>(sft + i) mod 64\<close>. A slot is passed over when it is occupied (neither empty nor
  reserved) by another key.\<close>

definition slot_of :: "Mapping_args \<Rightarrow> nat \<Rightarrow> nat \<Rightarrow> nat" where
  "slot_of a set_idx i = set_idx * 64 + (a_sft a + i) mod 64"

definition passes :: "u8 list \<Rightarrow> u8 list \<Rightarrow> Mapping_args \<Rightarrow> nat \<Rightarrow> bool" where
  "passes gd sp a p \<longleftrightarrow>
     gd ! p \<noteq> 0xff \<and> gd ! p AND 0x80 = 0
     \<and> \<not> (gd ! p = a_mark a \<and> Equal (drop (p * a_line_size a) sp) (a_key a) (a_key_len a))"

text \<open>What the visit of a slot that is not passed over returns.\<close>

definition slot_result :: "u8 list \<Rightarrow> u8 list \<Rightarrow> Mapping_args \<Rightarrow> nat \<Rightarrow> mapped" where
  "slot_result gd sp a p =
     (if gd ! p = 0xff then Installed (gd[p := a_mark a]) (a_fill a (p * a_line_size a) sp)
      else if gd ! p AND 0x80 \<noteq> 0 then Spin
      else Duplicate)"

lemma Mapping_set_step:
  "i < 64 \<Longrightarrow> Mapping_set gd sp a s (a_sft a + i) =
     (if passes gd sp a (slot_of a s i) then Mapping_set gd sp a s (a_sft a + Suc i)
      else slot_result gd sp a (slot_of a s i))"
  by (subst Mapping_set.simps) (auto simp add: Let_def passes_def slot_result_def slot_of_def)

lemma Mapping_set_end: "Mapping_set gd sp a s (a_sft a + 64) = NextSet"
  by (subst Mapping_set.simps) simp

lemma Mapping_set_pass:
  "i \<le> k \<Longrightarrow> k \<le> 64 \<Longrightarrow> \<forall>i'. i \<le> i' \<and> i' < k \<longrightarrow> passes gd sp a (slot_of a s i') \<Longrightarrow>
   Mapping_set gd sp a s (a_sft a + i) = Mapping_set gd sp a s (a_sft a + k)"
proof (induction "k - i" arbitrary: i)
  case 0
  then show ?case by simp
next
  case (Suc n)
  then have i: "i < 64" "i < k" by simp_all
  have "Mapping_set gd sp a s (a_sft a + i) = Mapping_set gd sp a s (a_sft a + Suc i)"
    using Suc.prems(3) i by (simp add: Mapping_set_step)
  also have "\<dots> = Mapping_set gd sp a s (a_sft a + k)"
    using Suc.hyps(2) Suc.prems i by (intro Suc.hyps(1)) auto
  finally show ?case .
qed

lemma Mapping_set_all_pass:
  "\<forall>i<64. passes gd sp a (slot_of a s i) \<Longrightarrow> Mapping_set gd sp a s (a_sft a) = NextSet"
  using Mapping_set_pass [of 0 64 gd sp a s] by (simp add: Mapping_set_end)

lemma Mapping_set_stop:
  assumes "k < 64" "\<forall>i<k. passes gd sp a (slot_of a s i)" "\<not> passes gd sp a (slot_of a s k)"
  shows "Mapping_set gd sp a s (a_sft a) = slot_result gd sp a (slot_of a s k)"
proof -
  have "Mapping_set gd sp a s (a_sft a + 0) = Mapping_set gd sp a s (a_sft a + k)"
    using assms by (intro Mapping_set_pass) simp_all
  then show ?thesis using assms by (simp add: Mapping_set_step)
qed


subsection \<open>Termination of the mapping\<close>


lemma slot_of_bound: "s < cnt \<Longrightarrow> slot_of a s i < 64 * cnt"
proof -
  assume "s < cnt"
  then have "s * 64 + 64 \<le> cnt * 64" by (metis Suc_leI mult_Suc mult_le_mono1 add.commute)
  moreover have "(a_sft a + i) mod 64 < 64" by simp
  ultimately show ?thesis unfolding slot_of_def by linarith
qed



subsection \<open>The number of sets\<close>





lemma HashKey_set_bound:
  assumes "c \<noteq> 0"
  shows "fst (HashKey Hash key klen sd (Divisor_assign c)) < unat c"
proof -
  have "Divisor_mod (Divisor_assign c) h = h mod c" for h
    using Divisor_div_mod [OF assms] by simp
  moreover have "unat (h mod c) < unat c" for h
    using assms by (simp add: unat_mod unat_gt_0)
  ultimately show ?thesis by (simp add: HashKey_def Let_def)
qed


subsection \<open>Two tables under construction\<close>


definition key_set_header :: Header where
  "key_set_header =
     \<lparr>h_magic = SSHT_MAGIC, h_type = KEY_SET, h_key_len = 1, h_val_len = 0, h_seed = 0,
      h_item = 0, h_set_cnt = 1\<rparr>"


definition chain_hash :: hashfn where
  "chain_hash msg n sd = 0x1410000000000000"

definition chain_guide :: "u8 list" where
  "chain_guide = replicate 64 1 @ replicate 5 0xff @ [1] @ replicate 122 0xff"

definition chain_space :: "u8 list" where
  "chain_space = replicate 192 0"

definition chain_args :: Mapping_args where
  "chain_args = \<lparr>a_line_size = 1, a_key_len = 1, a_set_cnt = Divisor_assign 3, a_key = [7],
      a_fill = (\<lambda>line sp. sp[line := 7]), a_mark = 2, a_sft = 5\<rparr>"

lemma HashKey_chain: "HashKey chain_hash [7] 1 0 (Divisor_assign 3) = (0, 2, 5)"
proof -
  have "Divisor_mod (Divisor_assign 3) 0x1410000000000000 = 0x1410000000000000 mod 3"
    using Divisor_div_mod [of 3 "0x1410000000000000"] by simp
  also have "\<dots> = 0" by simp
  finally have m: "Divisor_mod (Divisor_assign 3) 0x1410000000000000 = 0" .
  have "drop_bit 51 (0x1410000000000000 :: u64) = 0x282" by simp
  moreover have "(0x282 :: u64) AND 0x7f = 2" by simp
  moreover have "drop_bit 58 (0x1410000000000000 :: u64) = 5" by simp
  ultimately show ?thesis by (simp add: HashKey_def chain_hash_def m)
qed

lemma chain_guide_nth:
  "p < 64 \<Longrightarrow> chain_guide ! p = 1" "chain_guide ! 69 = 1" "chain_guide ! 70 = 0xff"
  "chain_guide ! 64 = 0xff" "length chain_guide = 192"
  by (simp_all add: chain_guide_def nth_append)

lemma chain_set0: "i < 64 \<Longrightarrow> passes chain_guide chain_space chain_args (slot_of chain_args 0 i)"
  by (simp add: passes_def slot_of_def chain_guide_nth(1) chain_args_def)

lemma chain_set1:
  "slot_of chain_args 1 0 = 69" "slot_of chain_args 1 1 = 70"
  "passes chain_guide chain_space chain_args 69"
  by (simp_all add: slot_of_def passes_def chain_guide_nth chain_args_def)

lemma Mapping_from_next:
  "\<forall>i<64. passes gd sp a (slot_of a s i) \<Longrightarrow>
   Mapping_from gd sp a s = Mapping_from gd sp a (if s + 1 \<ge> unat (m_val (a_set_cnt a)) then 0 else s + 1)"
  by (subst Mapping_from.simps) (simp add: Mapping_set_all_pass)

lemma Mapping_from_install:
  assumes "k < 64" "\<forall>i<k. passes gd sp a (slot_of a s i)" "gd ! slot_of a s k = 0xff"
  shows "Mapping_from gd sp a s =
     Some (True, gd[slot_of a s k := a_mark a], a_fill a (slot_of a s k * a_line_size a) sp)"
proof -
  have "\<not> passes gd sp a (slot_of a s k)" using assms(3) by (simp add: passes_def)
  from Mapping_set_stop [OF assms(1,2) this] show ?thesis
    using assms(3) by (subst Mapping_from.simps) (simp add: slot_result_def)
qed

lemma chain_fields:
  "a_mark chain_args = 2" "a_line_size chain_args = 1" "a_fill chain_args = (\<lambda>line sp. sp[line := 7])"
  by (simp_all add: chain_args_def)

lemma chain_cnt: "unat (m_val (a_set_cnt chain_args)) = 3"
  by (simp add: chain_args_def Divisor_assign_val)

text \<open>
  Claim C6, as stated, fails: in the next set the probe does not start at offset 0 but again
  at the key's start offset \<open>sft\<close>. In \<open>chain_guide\<close> set 0 is full, so the key moves on to
  set 1, whose offsets 0 to 4 (slots 64 to 68) are empty; it is installed in slot 70, the
  first empty slot from offset 5 on, and slot 64 stays empty.
\<close>

theorem Mapping_restarts_at_sft:
  "Mapping chain_hash chain_guide chain_space key_set_header (Divisor_assign 3) [7] (\<lambda>line sp. sp[line := 7])
     = Some (True, chain_guide[70 := 2], chain_space[70 := 7])
   \<and> chain_guide ! 64 = 0xff"
proof -
  have "Mapping chain_hash chain_guide chain_space key_set_header (Divisor_assign 3) [7] (\<lambda>line sp. sp[line := 7])
      = Mapping_from chain_guide chain_space chain_args 0"
    by (simp add: Mapping_def key_set_header_def HashKey_chain chain_args_def)
  also have "\<dots> = Mapping_from chain_guide chain_space chain_args 1"
    using Mapping_from_next [of chain_guide chain_space chain_args 0] chain_set0 by (simp add: chain_cnt)
  also have "\<dots> = Some (True, chain_guide[70 := 2], chain_space[70 := 7])"
  proof -
    have k: "(1::nat) < 64" by simp
    have p: "\<forall>i<1. passes chain_guide chain_space chain_args (slot_of chain_args 1 i)"
      using chain_set1(1,3) by simp
    have e: "chain_guide ! slot_of chain_args 1 1 = 0xff"
      by (simp only: chain_set1(2) chain_guide_nth(3))
    from Mapping_from_install [OF k p e] show ?thesis
      by (simp only: chain_set1(2) chain_fields) simp
  qed
  finally show ?thesis by (simp add: chain_guide_nth)
qed

text \<open>
  Claim C6, amended. When \<^verbatim>\<open>Mapping\<close> has visited all 64 offsets of a set without installing
  the key and without finding a duplicate, it goes on with the next set (set 0 after the last
  one, which is \<open>(set_idx + 1) mod set_cnt\<close> for a set index below \<open>set_cnt\<close>). In every set
  it visits, the first one or a later one, it probes the offsets in the order \<open>sft\<close>,
  \<open>sft + 1\<close>, ... modulo 64, and installs the key in the first of these slots that is empty,
  if the slots before it are occupied by other keys.
\<close>

theorem Mapping_next_set:
  "((\<forall>i<64. passes gd sp a (slot_of a s i)) \<longrightarrow>
      Mapping_from gd sp a s
        = Mapping_from gd sp a (if s + 1 \<ge> unat (m_val (a_set_cnt a)) then 0 else s + 1)
      \<and> (s < unat (m_val (a_set_cnt a)) \<longrightarrow>
           (if s + 1 \<ge> unat (m_val (a_set_cnt a)) then 0 else s + 1) = (s + 1) mod unat (m_val (a_set_cnt a))))
   \<and> (k < 64 \<and> (\<forall>i<k. passes gd sp a (slot_of a s i)) \<and> gd ! slot_of a s k = 0xff \<longrightarrow>
        Mapping_from gd sp a s
          = Some (True, gd[slot_of a s k := a_mark a], a_fill a (slot_of a s k * a_line_size a) sp))"
proof -
  have "(if s + 1 \<ge> unat (m_val (a_set_cnt a)) then 0 else s + 1) = (s + 1) mod unat (m_val (a_set_cnt a))"
    if "s < unat (m_val (a_set_cnt a))"
  proof (cases "s + 1 \<ge> unat (m_val (a_set_cnt a))")
    case True
    with that have "s + 1 = unat (m_val (a_set_cnt a))" by simp
    then show ?thesis by simp
  next
    case False
    then show ?thesis by simp
  qed
  then show ?thesis using Mapping_from_next [of gd sp a s] Mapping_from_install [of k gd sp a s] by blast
qed

theorem Mapping_next_set_witness:
  "Mapping_from chain_guide chain_space chain_args 0 = Mapping_from chain_guide chain_space chain_args 1
   \<and> Mapping_from chain_guide chain_space chain_args 1 = Some (True, chain_guide[70 := 2], chain_space[70 := 7])"
proof -
  have "Mapping_from chain_guide chain_space chain_args 0 = Mapping_from chain_guide chain_space chain_args 1"
    using Mapping_next_set [of chain_guide chain_space chain_args 0 0] chain_set0 by (simp add: chain_cnt)
  moreover have "Mapping_from chain_guide chain_space chain_args 1 = Some (True, chain_guide[70 := 2], chain_space[70 := 7])"
  proof -
    have k: "(1::nat) < 64" by simp
    have p: "\<forall>i<1. passes chain_guide chain_space chain_args (slot_of chain_args 1 i)"
      using chain_set1(1,3) by simp
    have e: "chain_guide ! slot_of chain_args 1 1 = 0xff"
      by (simp only: chain_set1(2) chain_guide_nth(3))
    from Mapping_next_set [of chain_guide chain_space chain_args 1 1] k p e
    have "Mapping_from chain_guide chain_space chain_args 1
       = Some (True, chain_guide[slot_of chain_args 1 1 := a_mark chain_args],
               a_fill chain_args (slot_of chain_args 1 1 * a_line_size chain_args) chain_space)"
      by blast
    then show ?thesis by (simp only: chain_set1(2) chain_fields) simp
  qed
  ultimately show ?thesis by simp
qed




section \<open>Building a table (BuildDictWithVariedValue)\<close>

text \<open>
  The build of a \<open>KV_SEPARATED\<close> table runs in one thread. Its input is a list of data
  readers and its output goes to a data writer; both are interfaces in the source.

  A \<^verbatim>\<open>Slice\<close> handed in by a reader is modelled by its pointer and its length: the pointer
  is null (\<open>None\<close>) or gives the bytes found at it. A reader is the list of the records it
  yields: \<^verbatim>\<open>total()\<close> is the length of the list, every pass after \<^verbatim>\<open>reset()\<close> yields the same
  records in the same order, and a read past the end yields a record of null slices. A writer
  has room for a number of bytes; \<^verbatim>\<open>write\<close> appends when the bytes fit and fails otherwise.

  \<^verbatim>\<open>GetSeed\<close> reads the clock: the seed is an argument. The 32 bytes of \<^verbatim>\<open>_pad\<close> in the
  header are never assigned: they are an argument as well. The allocator behind
  \<^verbatim>\<open>MemBlock\<close> is not among the files at hand: an allocation is taken to succeed and to hand
  out zeroed memory.
\<close>

datatype BuildStatus = BUILD_STATUS_OK | BUILD_STATUS_BAD_INPUT | BUILD_STATUS_FAIL_TO_OUTPUT

datatype exn = BuildException

record Bytes =
  b_ptr :: "u8 list option"
  b_len :: u64

record Record =
  r_key :: Bytes
  r_val :: Bytes

definition no_bytes :: Bytes where
  "no_bytes = \<lparr>b_ptr = None, b_len = 0\<rparr>"

definition no_Record :: Record where
  "no_Record = \<lparr>r_key = no_bytes, r_val = no_bytes\<rparr>"

type_synonym DataReader = "Record list"

definition read_at :: "DataReader \<Rightarrow> nat \<Rightarrow> Record" where
  "read_at reader i = (if i < length reader then reader ! i else no_Record)"

record Writer =
  w_out :: "u8 list"
  w_room :: nat

definition Writer_write :: "Writer \<Rightarrow> u8 list \<Rightarrow> Writer option" where
  "Writer_write w bs =
    (if length bs \<le> w_room w then Some \<lparr>w_out = w_out w @ bs, w_room = w_room w - length bs\<rparr>
     else None)"

text \<open>The \<open>n\<close> bytes of a number, least significant byte first, as a store of an
  \<open>n\<close>-byte integer leaves them in memory.\<close>

fun bytes_le :: "nat \<Rightarrow> nat \<Rightarrow> u8 list" where
  "bytes_le 0 v = []"
| "bytes_le (Suc n) v = word_of_nat (v mod 256) # bytes_le n (v div 256)"

definition MAX_KEY_LEN :: u64 where "MAX_KEY_LEN = 255"
definition MAX_VALUE_LEN :: u64 where "MAX_VALUE_LEN = 2 ^ 35 - 1"
definition MAX_OFFSET :: u64 where "MAX_OFFSET = 2 ^ 48 - 1"

text \<open>\<^verbatim>\<open>WriteOffsetField\<close> stores the low 32 bits and then bits 32 to 47 of the offset: the
  result is the six bytes of the field.\<close>

definition WriteOffsetField :: "u64 \<Rightarrow> u8 list" where
  "WriteOffsetField off =
     bytes_le 4 (unat (ucast off :: u32)) @ bytes_le 2 (unat (ucast (drop_bit 32 off) :: u16))"

text \<open>The 64 bytes of a header as \<^verbatim>\<open>out.write(&header, sizeof(header))\<close> writes them.\<close>

definition Header_bytes :: "Header \<Rightarrow> u8 list \<Rightarrow> u8 list" where
  "Header_bytes h pad =
     bytes_le 4 (unat (h_magic h)) @ [h_type h, h_key_len h] @ bytes_le 2 (unat (h_val_len h))
     @ bytes_le 8 (unat (h_seed h)) @ bytes_le 8 (unat (h_item h)) @ bytes_le 8 (unat (h_set_cnt h))
     @ pad"

text \<open>\<^verbatim>\<open>Assign\<close> copies \<open>len\<close> bytes: by one 64-bit or one 32-bit load and store when
  \<open>len\<close> is 8 or 4, by \<^verbatim>\<open>memcpy\<close> otherwise.\<close>

definition Assign :: "u8 list \<Rightarrow> nat \<Rightarrow> u8 list \<Rightarrow> u8 \<Rightarrow> u8 list" where
  "Assign dst at src n =
    (if unat n = 8 then memcpy dst at src 8
     else if unat n = 4 then memcpy dst at src 4
     else memcpy dst at src (unat n))"

text \<open>\<^verbatim>\<open>VarIntSize\<close> and the bytes that \<^verbatim>\<open>WriteVarInt\<close> puts in its buffer.\<close>

function VarIntSize :: "u64 \<Rightarrow> u32" where
  "VarIntSize n = (if n AND NOT 0x7f \<noteq> 0 then VarIntSize (drop_bit 7 n) + 1 else 1)"
  by pat_completeness auto
termination
proof (relation "measure unat")
  fix n :: u64
  assume "n AND NOT 0x7f \<noteq> 0"
  then have "n \<noteq> 0" by auto
  then have "0 < unat n" by (simp add: unat_gt_0)
  then have "unat n div 128 < unat n" by simp
  then show "(drop_bit 7 n, n) \<in> measure unat"
    by (simp add: drop_bit_eq_div unat_div)
qed simp

function WriteVarInt_bytes :: "u64 \<Rightarrow> u8 list" where
  "WriteVarInt_bytes n =
    (if n AND NOT 0x7f \<noteq> 0 then ucast (0x80 OR (n AND 0x7f)) # WriteVarInt_bytes (drop_bit 7 n)
     else [ucast n])"
  by pat_completeness auto
termination
proof (relation "measure unat")
  fix n :: u64
  assume "n AND NOT 0x7f \<noteq> 0"
  then have "n \<noteq> 0" by auto
  then have "0 < unat n" by (simp add: unat_gt_0)
  then have "unat n div 128 < unat n" by simp
  then show "(drop_bit 7 n, n) \<in> measure unat"
    by (simp add: drop_bit_eq_div unat_div)
qed simp

declare VarIntSize.simps [simp del] WriteVarInt_bytes.simps [simp del]

definition WriteVarInt :: "u64 \<Rightarrow> Writer \<Rightarrow> Writer option" where
  "WriteVarInt n w = Writer_write w (WriteVarInt_bytes n)"

definition DumpVariedValue :: "Bytes \<Rightarrow> Writer \<Rightarrow> Writer option" where
  "DumpVariedValue v w =
    (case WriteVarInt (b_len v) w of
       None \<Rightarrow> None
     | Some w' \<Rightarrow>
         if b_len v = 0 then Some w'
         else Writer_write w' (take (unat (b_len v)) (case b_ptr v of Some bs \<Rightarrow> bs | None \<Rightarrow> [])))"

text \<open>\<^verbatim>\<open>Mapping\<close> over a reader calls \<^verbatim>\<open>read\<close> once per record. \<^verbatim>\<open>KeyOffReader::read\<close>
  wraps the read of the reader below it: it throws, or replaces the value of the record by
  the offset field and advances \<open>m_offset\<close>. The state of the wrapper is \<open>m_offset\<close>; a
  plain reader has no state.\<close>

definition plain_read :: "unit \<Rightarrow> Record \<Rightarrow> exn + Record \<times> unit" where
  "plain_read s r = Inr (r, s)"

definition KeyOffReader_read :: "u64 \<Rightarrow> Record \<Rightarrow> exn + Record \<times> u64" where
  "KeyOffReader_read m_offset r =
    (if m_offset > MAX_OFFSET \<or> b_len (r_val r) > MAX_VALUE_LEN
        \<or> (b_len (r_val r) \<noteq> 0 \<and> b_ptr (r_val r) = None)
     then Inl BuildException
     else Inr (r\<lparr>r_val := \<lparr>b_ptr = Some (WriteOffsetField m_offset), b_len = word_of_nat OFFSET_FIELD_SIZE\<rparr>\<rparr>,
               m_offset + ucast (VarIntSize (b_len (r_val r))) + b_len (r_val r)))"

text \<open>The \<^verbatim>\<open>fill\<close> callback of \<^verbatim>\<open>Mapping\<close> over a reader: key, then value, into the line.\<close>

definition fill_record :: "Header \<Rightarrow> Record \<Rightarrow> nat \<Rightarrow> u8 list \<Rightarrow> u8 list" where
  "fill_record header r line sp =
    (let sp1 = Assign sp line (the (b_ptr (r_key r))) (h_key_len header)
     in if h_val_len header \<noteq> 0
        then memcpy sp1 (line + unat (h_key_len header)) (the (b_ptr (r_val r))) (unat (h_val_len header))
        else sp1)"

text \<open>\<^verbatim>\<open>Mapping(guide, space, header, reader)\<close>: the records that are left, the state of
  the reader, the two arrays and the running count \<open>cnt\<close>, which starts at \<^verbatim>\<open>total()\<close> and
  goes down by one for each key that is not installed. \<open>Some (Inl BuildException)\<close> is the
  exception thrown, \<open>None\<close> a call that does not return.\<close>

fun Mapping_reader ::
  "hashfn \<Rightarrow> Header \<Rightarrow> Divisor \<Rightarrow> ('s \<Rightarrow> Record \<Rightarrow> exn + Record \<times> 's) \<Rightarrow> Record list
     \<Rightarrow> 's \<Rightarrow> u8 list \<Rightarrow> u8 list \<Rightarrow> u64 \<Rightarrow> (exn + u8 list \<times> u8 list \<times> u64 \<times> 's) option" where
  "Mapping_reader Hash header cnt rd [] s gd sp n = Some (Inr (gd, sp, n, s))"
| "Mapping_reader Hash header cnt rd (r # rs) s gd sp n =
    (case rd s r of
       Inl e \<Rightarrow> Some (Inl e)
     | Inr (rec, s') \<Rightarrow>
         if b_ptr (r_key rec) = None \<or> b_len (r_key rec) \<noteq> ucast (h_key_len header)
            \<or> (h_val_len header \<noteq> 0
                \<and> (b_ptr (r_val rec) = None \<or> b_len (r_val rec) \<noteq> ucast (h_val_len header)))
         then Some (Inl BuildException)
         else
           (case Mapping Hash gd sp header cnt (the (b_ptr (r_key rec))) (fill_record header rec) of
              None \<Rightarrow> None
            | Some (installed, gd', sp') \<Rightarrow>
                Mapping_reader Hash header cnt rd rs s' gd' sp' (if installed then n else n - 1)))"

definition SumInputSize :: "DataReader list \<Rightarrow> u64" where
  "SumInputSize ins = fold (\<lambda>reader total. total + word_of_nat (length reader)) ins 0"

text \<open>\<^verbatim>\<open>DetectKeyValueLen\<close> as \<^verbatim>\<open>BuildDictWithVariedValue\<close> calls it, with no \<open>val_len\<close>:
  \<open>None\<close> is \<^verbatim>\<open>return false\<close>.\<close>

definition DetectKeyLen :: "DataReader \<Rightarrow> u8 option" where
  "DetectKeyLen reader =
    (let rec = read_at reader 0
     in if b_ptr (r_key rec) = None \<or> b_len (r_key rec) = 0 \<or> b_len (r_key rec) > MAX_KEY_LEN then None
        else Some (ucast (b_len (r_key rec))))"

text \<open>The first loop over the readers in \<^verbatim>\<open>BuildDictWithVariedValue\<close>: \<open>off\<close> is
  \<open>offset\<close> and \<open>n\<close> is \<open>header.item\<close>.\<close>

fun Mapping_varied ::
  "hashfn \<Rightarrow> Header \<Rightarrow> DataReader list \<Rightarrow> u64 \<Rightarrow> u8 list \<Rightarrow> u8 list \<Rightarrow> u64
     \<Rightarrow> (exn + u8 list \<times> u8 list \<times> u64 \<times> u64) option" where
  "Mapping_varied Hash header [] off gd sp n = Some (Inr (gd, sp, n, off))"
| "Mapping_varied Hash header (reader # rest) off gd sp n =
    (case Mapping_reader Hash header (Divisor_assign (h_set_cnt header)) KeyOffReader_read reader off gd sp
            (word_of_nat (length reader)) of
       None \<Rightarrow> None
     | Some (Inl e) \<Rightarrow> Some (Inl e)
     | Some (Inr (gd', sp', m, off')) \<Rightarrow> Mapping_varied Hash header rest off' gd' sp' (n + m))"

text \<open>The second loop over the readers, which writes the values.\<close>

fun Dump_reader :: "Record list \<Rightarrow> Writer \<Rightarrow> Writer option" where
  "Dump_reader [] w = Some w"
| "Dump_reader (r # rs) w =
    (case DumpVariedValue (r_val r) w of None \<Rightarrow> None | Some w' \<Rightarrow> Dump_reader rs w')"

fun Dump_readers :: "DataReader list \<Rightarrow> Writer \<Rightarrow> Writer option" where
  "Dump_readers [] w = Some w"
| "Dump_readers (reader # rest) w =
    (case Dump_reader reader w of None \<Rightarrow> None | Some w' \<Rightarrow> Dump_readers rest w')"

definition write3 :: "Writer \<Rightarrow> u8 list \<Rightarrow> u8 list \<Rightarrow> u8 list \<Rightarrow> Writer option" where
  "write3 w a b c =
    (case Writer_write w a of None \<Rightarrow> None
     | Some w1 \<Rightarrow> (case Writer_write w1 b of None \<Rightarrow> None | Some w2 \<Rightarrow> Writer_write w2 c))"

text \<open>\<^verbatim>\<open>BuildDictWithVariedValue\<close> returns the status and leaves the writer with what has
  been written. \<open>slot\<close> and the size of the content array are \<^verbatim>\<open>size_t\<close> values and wrap
  around; \<open>line_size\<close> is a 32-bit sum.\<close>

definition BuildDictWithVariedValue ::
  "hashfn \<Rightarrow> u64 \<Rightarrow> u8 list \<Rightarrow> DataReader list \<Rightarrow> Writer \<Rightarrow> (BuildStatus \<times> Writer) option" where
  "BuildDictWithVariedValue Hash sd pad ins out =
    (if ins = [] then Some (BUILD_STATUS_BAD_INPUT, out)
     else case DetectKeyLen (hd ins) of
       None \<Rightarrow> Some (BUILD_STATUS_BAD_INPUT, out)
     | Some klen \<Rightarrow>
        (let total = SumInputSize ins;
             header = \<lparr>h_magic = SSHT_MAGIC, h_type = KV_SEPARATED, h_key_len = klen,
                       h_val_len = word_of_nat OFFSET_FIELD_SIZE, h_seed = sd, h_item = 0,
                       h_set_cnt = CalcSetCnt total\<rparr>;
             slot = push_bit 6 (h_set_cnt header);
             line_size = (ucast klen :: u32) + word_of_nat OFFSET_FIELD_SIZE
         in case Mapping_varied Hash header ins 0 (replicate (unat slot) 0xff)
                   (replicate (unat (slot * ucast line_size)) 0) 0 of
              None \<Rightarrow> None
            | Some (Inl e) \<Rightarrow> Some (BUILD_STATUS_BAD_INPUT, out)
            | Some (Inr (gd, sp, n, off)) \<Rightarrow>
                if n \<noteq> total then Some (BUILD_STATUS_BAD_INPUT, out)
                else
                  (case write3 out (Header_bytes (header\<lparr>h_item := n\<rparr>) pad) gd sp of
                     None \<Rightarrow> Some (BUILD_STATUS_FAIL_TO_OUTPUT, out)
                   | Some w \<Rightarrow>
                       (case Dump_readers ins w of
                          None \<Rightarrow> Some (BUILD_STATUS_FAIL_TO_OUTPUT, out)
                        | Some w' \<Rightarrow> Some (BUILD_STATUS_OK, w')))))"

subsection \<open>A key that is installed stays detected\<close>





lemma passes_fill [simp]: "passes gd sp (a\<lparr>a_fill := f\<rparr>) p = passes gd sp a p"
  by (simp add: passes_def)

lemma slot_of_fill [simp]: "slot_of (a\<lparr>a_fill := f\<rparr>) s i = slot_of a s i"
  by (simp add: slot_of_def)





lemma length_memcpy:
  "at + n \<le> length dst \<Longrightarrow> n \<le> length src \<Longrightarrow> length (memcpy dst at src n) = length dst"
  by (simp add: memcpy_def)

lemma memcpy_here:
  "at + n \<le> length dst \<Longrightarrow> n \<le> length src \<Longrightarrow> m \<le> n \<Longrightarrow>
   take m (drop at (memcpy dst at src n)) = take m src"
  by (simp add: memcpy_def min_def)

lemma memcpy_before:
  assumes "x + m \<le> at" "at + n \<le> length dst"
  shows "take m (drop x (memcpy dst at src n)) = take m (drop x dst)"
proof -
  let ?A = "take at dst"
  have la: "length ?A = at" using assms by simp
  have "take m (drop x (?A @ (take n src @ drop (at + n) dst))) = take m (drop x ?A)"
    using assms la by simp
  also have "drop x ?A = take (at - x) (drop x dst)" by (simp add: drop_take)
  also have "take m (take (at - x) (drop x dst)) = take m (drop x dst)"
    using assms by (simp add: min_def)
  finally show ?thesis by (simp add: memcpy_def)
qed

lemma memcpy_after:
  "at + n \<le> x \<Longrightarrow> at + n \<le> length dst \<Longrightarrow> n \<le> length src \<Longrightarrow>
   drop x (memcpy dst at src n) = drop x dst"
  by (simp add: memcpy_def min_def)








lemma fill_record_ok:
  fixes header :: Header and r :: Record
  defines "klen \<equiv> unat (h_key_len header)" and "vlen \<equiv> unat (h_val_len header)"
  assumes kp: "b_ptr (r_key r) = Some k" "klen \<le> length k"
    and vp: "b_ptr (r_val r) = Some v" "vlen \<le> length v"
    and sp: "(p + 1) * (klen + vlen) \<le> length sp"
  shows "length (fill_record header r (p * (klen + vlen)) sp) = length sp"
    and "take klen (drop (p * (klen + vlen)) (fill_record header r (p * (klen + vlen)) sp)) = take klen k"
    and "q \<noteq> p \<Longrightarrow> take klen (drop (q * (klen + vlen)) (fill_record header r (p * (klen + vlen)) sp))
           = take klen (drop (q * (klen + vlen)) sp)"
proof -
  let ?L = "klen + vlen"
  let ?sp1 = "memcpy sp (p * ?L) k klen"
  let ?sp2 = "memcpy ?sp1 (p * ?L + klen) v vlen"
  have b1: "p * ?L + klen \<le> length sp" and b2: "p * ?L + klen + vlen \<le> length sp"
    using sp by (simp_all add: algebra_simps)
  have l1: "length ?sp1 = length sp" using b1 kp(2) by (simp add: length_memcpy)
  have l2: "length ?sp2 = length sp" using b2 vp(2) l1 by (simp add: length_memcpy)
  have f: "fill_record header r (p * ?L) sp = (if vlen \<noteq> 0 then ?sp2 else ?sp1)"
    by (simp add: fill_record_def Assign_def kp vp klen_def vlen_def unat_eq_0)
  have z: "vlen = 0 \<Longrightarrow> ?sp2 = ?sp1" using l1 b1 by (simp add: memcpy_def)
  have f2: "fill_record header r (p * ?L) sp = ?sp2" using f z by auto
  show "length (fill_record header r (p * ?L) sp) = length sp" using f2 l2 by simp
  have b2'': "p * ?L + klen + vlen \<le> length ?sp1" using b2 l1 by simp
  have "take klen (drop (p * ?L) ?sp2) = take klen (drop (p * ?L) ?sp1)"
    by (rule memcpy_before [OF order_refl b2''])
  also have "\<dots> = take klen k" by (rule memcpy_here [OF b1 kp(2) order_refl])
  finally show "take klen (drop (p * ?L) (fill_record header r (p * ?L) sp)) = take klen k"
    using f2 by simp
  show "take klen (drop (q * ?L) (fill_record header r (p * ?L) sp)) = take klen (drop (q * ?L) sp)"
    if "q \<noteq> p"
  proof (cases "q < p")
    case True
    then have "Suc q \<le> p" by simp
    then have "Suc q * ?L \<le> p * ?L" by (rule mult_le_mono1)
    then have le: "q * ?L + klen \<le> p * ?L" by simp
    have le2: "q * ?L + klen \<le> p * ?L + klen" using le by linarith
    have b2': "p * ?L + klen + vlen \<le> length ?sp1" using b2 l1 by simp
    have "take klen (drop (q * ?L) ?sp2) = take klen (drop (q * ?L) ?sp1)"
      by (rule memcpy_before [OF le2 b2'])
    also have "\<dots> = take klen (drop (q * ?L) sp)"
      by (rule memcpy_before [OF le b1])
    finally show ?thesis using f2 by simp
  next
    case False
    with that have "Suc p \<le> q" by simp
    then have "Suc p * ?L \<le> q * ?L" by (rule mult_le_mono1)
    then have ge: "p * ?L + klen + vlen \<le> q * ?L" by simp
    have ge1: "p * ?L + klen \<le> q * ?L" using ge by linarith
    have b2': "p * ?L + klen + vlen \<le> length ?sp1" using b2 l1 by simp
    have "drop (q * ?L) ?sp2 = drop (q * ?L) ?sp1"
      by (rule memcpy_after [OF ge b2' vp(2)])
    also have "\<dots> = drop (q * ?L) sp"
      by (rule memcpy_after [OF ge1 b1 kp(2)])
    finally show ?thesis using f2 by simp
  qed
qed



lemma Mapping_eq_from:
  "HashKey Hash k (h_key_len header) (h_seed header) D = (s, mark, sft) \<Longrightarrow>
   Mapping Hash gd sp header D k fill =
     Mapping_from gd sp \<lparr>a_line_size = unat (h_key_len header) + unat (h_val_len header),
        a_key_len = h_key_len header, a_set_cnt = D, a_key = k, a_fill = fill,
        a_mark = mark, a_sft = sft\<rparr> s"
  by (simp add: Mapping_def)



lemma length_bytes_le [simp]: "length (bytes_le n v) = n"
  by (induction n arbitrary: v) simp_all

lemma length_WriteOffsetField [simp]: "length (WriteOffsetField off) = 6"
  by (simp add: WriteOffsetField_def)












definition rec12 :: Record where
  "rec12 = \<lparr>r_key = \<lparr>b_ptr = Some [1], b_len = 1\<rparr>, r_val = \<lparr>b_ptr = Some [2], b_len = 1\<rparr>\<rparr>"

definition out0 :: Writer where
  "out0 = \<lparr>w_out = [], w_room = 1000\<rparr>"

subsection \<open>A build of one record\<close>

lemma le_val_bytes_le: "le_val (map unat (bytes_le n v)) = v mod 256 ^ n"
proof (induction n arbitrary: v)
  case 0
  then show ?case by simp
next
  case (Suc n)
  have "unat (word_of_nat (v mod 256) :: u8) = v mod 256" by (simp add: unat_of_nat)
  then have "le_val (map unat (bytes_le (Suc n) v)) = v mod 256 + 256 * ((v div 256) mod 256 ^ n)"
    using Suc.IH [of "v div 256"] by simp
  also have "\<dots> = v mod 256 ^ Suc n" by (simp add: mod_mult2_eq)
  finally show ?case .
qed

lemma load_le_bytes_le:
  "length pre = p \<Longrightarrow> load_le (pre @ bytes_le n v @ post) p n = v mod 256 ^ n"
  by (simp add: load_le_def le_val_bytes_le)

lemma read_Header_bytes: "read_Header (Header_bytes h pad @ rest) = h"
proof -
  let ?m = "bytes_le 4 (unat (h_magic h))"
  let ?v = "bytes_le 2 (unat (h_val_len h))"
  let ?s = "bytes_le 8 (unat (h_seed h))"
  let ?i = "bytes_le 8 (unat (h_item h))"
  let ?c = "bytes_le 8 (unat (h_set_cnt h))"
  let ?f = "Header_bytes h pad @ rest"
  have f: "?f = ?m @ [h_type h, h_key_len h] @ ?v @ ?s @ ?i @ ?c @ pad @ rest"
    by (simp add: Header_bytes_def)
  have "load_le ?f 0 4 = unat (h_magic h) mod 256 ^ 4"
    using load_le_bytes_le [of "[]" 0 4 "unat (h_magic h)"] by (simp add: f)
  then have 1: "load32 ?f 0 = h_magic h"
    using unsigned_less [of "h_magic h", where 'a = nat] by (simp add: load32_def)
  have "load_le ?f 6 2 = unat (h_val_len h) mod 256 ^ 2"
    using load_le_bytes_le [of "?m @ [h_type h, h_key_len h]" 6 2 "unat (h_val_len h)"] by (simp add: f)
  then have 2: "load16 ?f 6 = h_val_len h"
    using unsigned_less [of "h_val_len h", where 'a = nat] by (simp add: load16_def)
  have "load_le ?f 8 8 = unat (h_seed h) mod 256 ^ 8"
    using load_le_bytes_le [of "?m @ [h_type h, h_key_len h] @ ?v" 8 8 "unat (h_seed h)"] by (simp add: f)
  then have 3: "load64 ?f 8 = h_seed h"
    using unsigned_less [of "h_seed h", where 'a = nat] by (simp add: load64_def)
  have "load_le ?f 16 8 = unat (h_item h) mod 256 ^ 8"
    using load_le_bytes_le [of "?m @ [h_type h, h_key_len h] @ ?v @ ?s" 16 8 "unat (h_item h)"]
    by (simp add: f)
  then have 4: "load64 ?f 16 = h_item h"
    using unsigned_less [of "h_item h", where 'a = nat] by (simp add: load64_def)
  have "load_le ?f 24 8 = unat (h_set_cnt h) mod 256 ^ 8"
    using load_le_bytes_le [of "?m @ [h_type h, h_key_len h] @ ?v @ ?s @ ?i" 24 8 "unat (h_set_cnt h)"]
    by (simp add: f)
  then have 5: "load64 ?f 24 = h_set_cnt h"
    using unsigned_less [of "h_set_cnt h", where 'a = nat] by (simp add: load64_def)
  have 6: "?f ! 4 = h_type h" "?f ! 5 = h_key_len h" by (simp_all add: f nth_append)
  show ?thesis unfolding read_Header_def by (simp only: 1 2 3 4 5 6) simp
qed

definition rec12_off :: Record where
  "rec12_off = \<lparr>r_key = \<lparr>b_ptr = Some [1], b_len = 1\<rparr>,
       r_val = \<lparr>b_ptr = Some [0, 0, 0, 0, 0, 0], b_len = 6\<rparr>\<rparr>"

definition varied_header :: "u64 \<Rightarrow> Header" where
  "varied_header sd = \<lparr>h_magic = SSHT_MAGIC, h_type = KV_SEPARATED, h_key_len = 1, h_val_len = 6,
     h_seed = sd, h_item = 0, h_set_cnt = 1\<rparr>"

lemma CalcSetCnt_small: "CalcSetCnt 1 = 1" "CalcSetCnt 2 = 1"
  by (simp_all add: CalcSetCnt_def RESERVE_FACTOR_def)

lemma VarIntSize_1: "VarIntSize 1 = 1"
  by (subst VarIntSize.simps) simp

lemma WriteVarInt_bytes_1: "WriteVarInt_bytes 1 = [1]"
  by (subst WriteVarInt_bytes.simps) simp

lemma bytes_le_numeral:
  "bytes_le (numeral k) v = word_of_nat (v mod 256) # bytes_le (pred_numeral k) (v div 256)"
proof -
  have "numeral k = Suc (pred_numeral k)" by (rule numeral_eq_Suc)
  then show ?thesis by (simp only: bytes_le.simps)
qed

lemma WriteOffsetField_0: "WriteOffsetField 0 = [0, 0, 0, 0, 0, 0]"
  by (simp add: WriteOffsetField_def bytes_le_numeral)

lemma Dump_rec12:
  "Dump_readers [ [rec12] ] \<lparr>w_out = bs, w_room = 424\<rparr> = Some \<lparr>w_out = bs @ [1, 2], w_room = 422\<rparr>"
  by (simp add: DumpVariedValue_def WriteVarInt_def WriteVarInt_bytes_1 Writer_write_def rec12_def)

lemma write3_room:
  "length a + length b + length c \<le> w_room w \<Longrightarrow>
   write3 w a b c = Some \<lparr>w_out = w_out w @ a @ b @ c, w_room = w_room w - (length a + length b + length c)\<rparr>"
  by (auto simp add: write3_def Writer_write_def)

lemma varied_header_fields:
  "h_key_len (varied_header sd) = 1" "h_val_len (varied_header sd) = 6" "h_set_cnt (varied_header sd) = 1"
  "h_seed (varied_header sd) = sd"
  by (simp_all add: varied_header_def)

lemma rec12_off_fields:
  "b_ptr (r_key rec12_off) = Some [1]" "b_len (r_key rec12_off) = 1"
  "b_ptr (r_val rec12_off) = Some [0, 0, 0, 0, 0, 0]" "b_len (r_val rec12_off) = 6"
  by (simp_all add: rec12_off_def)

lemma KeyOffReader_read_rec12: "KeyOffReader_read 0 rec12 = Inr (rec12_off, 2)"
  by (simp add: KeyOffReader_read_def rec12_def rec12_off_def MAX_OFFSET_def MAX_VALUE_LEN_def
      VarIntSize_1 OFFSET_FIELD_SIZE_def WriteOffsetField_0)

lemma Mapping_empty_table:
  assumes c: "c \<noteq> 0"
  shows "\<exists>p<64 * unat c. \<exists>mark.
     Mapping Hash (replicate (64 * unat c) 0xff) sp header (Divisor_assign c) k fill
       = Some (True, (replicate (64 * unat c) 0xff)[p := mark],
               fill (p * (unat (h_key_len header) + unat (h_val_len header))) sp)"
proof -
  let ?D = "Divisor_assign c"
  let ?gd = "replicate (64 * unat c) (0xff :: u8)"
  obtain s mark sft where hk: "HashKey Hash k (h_key_len header) (h_seed header) ?D = (s, mark, sft)"
    by (cases "HashKey Hash k (h_key_len header) (h_seed header) ?D")
  let ?a = "\<lparr>a_line_size = unat (h_key_len header) + unat (h_val_len header),
        a_key_len = h_key_len header, a_set_cnt = ?D, a_key = k, a_fill = fill,
        a_mark = mark, a_sft = sft\<rparr>"
  have sb: "s < unat c"
    using HashKey_set_bound [OF c, of Hash k "h_key_len header" "h_seed header"] hk by simp
  have pb: "slot_of ?a s 0 < 64 * unat c" by (rule slot_of_bound [OF sb])
  have k0: "(0::nat) < 64" by simp
  have e: "?gd ! slot_of ?a s 0 = 0xff" using pb by simp
  have "Mapping_from ?gd sp ?a s
      = Some (True, ?gd[slot_of ?a s 0 := a_mark ?a], a_fill ?a (slot_of ?a s 0 * a_line_size ?a) sp)"
    by (rule Mapping_from_install [OF k0 _ e]) simp
  then have "Mapping Hash ?gd sp header ?D k fill
      = Some (True, ?gd[slot_of ?a s 0 := mark],
              fill (slot_of ?a s 0 * (unat (h_key_len header) + unat (h_val_len header))) sp)"
    by (simp add: Mapping_eq_from [OF hk])
  with pb show ?thesis by blast
qed

lemma length_Header_bytes: "length (Header_bytes h pad) = 32 + length pad"
  by (simp add: Header_bytes_def)

lemma Build_rec12:
  assumes pad: "length pad = 32"
  shows "\<exists>file. BuildDictWithVariedValue Hash sd pad [ [rec12] ] out0
             = Some (BUILD_STATUS_OK, \<lparr>w_out = file, w_room = 422\<rparr>)
          \<and> length file = 578 \<and> read_Header file = (varied_header sd)\<lparr>h_item := 1\<rparr>"
proof -
  let ?h = "varied_header sd"
  let ?gd = "replicate 64 (0xff :: u8)"
  let ?sp = "replicate 448 (0 :: u8)"
  have "\<exists>p<64 * unat (1 :: u64). \<exists>mark.
     Mapping Hash (replicate (64 * unat (1 :: u64)) 0xff) ?sp ?h (Divisor_assign 1) [1] (fill_record ?h rec12_off)
       = Some (True, (replicate (64 * unat (1 :: u64)) 0xff)[p := mark],
               fill_record ?h rec12_off (p * (unat (h_key_len ?h) + unat (h_val_len ?h))) ?sp)"
    by (rule Mapping_empty_table) simp
  then obtain p mark where p: "p < 64"
    and m: "Mapping Hash ?gd ?sp ?h (Divisor_assign 1) [1] (fill_record ?h rec12_off)
       = Some (True, ?gd[p := mark], fill_record ?h rec12_off (p * 7) ?sp)"
    by (auto simp add: varied_header_fields)
  let ?gd' = "?gd[p := mark]"
  let ?sp' = "fill_record ?h rec12_off (p * 7) ?sp"
  have "(p + 1) * 7 \<le> 448" using p by simp
  then have "(p + 1) * (unat (h_key_len ?h) + unat (h_val_len ?h)) \<le> length ?sp"
    by (simp add: varied_header_fields)
  from fill_record_ok(1) [OF rec12_off_fields(1) _ rec12_off_fields(3) _ this]
  have lsp: "length ?sp' = 448" by (simp add: varied_header_fields)
  have rd: "Mapping_reader Hash ?h (Divisor_assign 1) KeyOffReader_read [rec12] 0 ?gd ?sp 1
      = Some (Inr (?gd', ?sp', 1, 2))"
    by (simp add: KeyOffReader_read_rec12 rec12_off_fields varied_header_fields m)
  have mv: "Mapping_varied Hash ?h [ [rec12] ] 0 ?gd ?sp 0 = Some (Inr (?gd', ?sp', 1, 2))"
    by (simp add: varied_header_fields rd del: Mapping_reader.simps)
  have d: "DetectKeyLen [rec12] = Some 1"
    by (simp add: DetectKeyLen_def read_at_def rec12_def MAX_KEY_LEN_def)
  have t: "SumInputSize [ [rec12] ] = 1" by (simp add: SumInputSize_def)
  have h: "\<lparr>h_magic = SSHT_MAGIC, h_type = KV_SEPARATED, h_key_len = 1, h_val_len = 6, h_seed = sd,
      h_item = 0, h_set_cnt = 1\<rparr> = ?h" by (simp add: varied_header_def)
  have l: "w_room out0 = 1000" "w_out out0 = []" by (simp_all add: out0_def)
  let ?file = "Header_bytes (?h\<lparr>h_item := 1\<rparr>) pad @ ?gd' @ ?sp' @ [1, 2]"
  have "BuildDictWithVariedValue Hash sd pad [ [rec12] ] out0
      = Some (BUILD_STATUS_OK, \<lparr>w_out = ?file, w_room = 422\<rparr>)"
    unfolding BuildDictWithVariedValue_def
    by (simp add: d t CalcSetCnt_small OFFSET_FIELD_SIZE_def h mv write3_room length_Header_bytes pad lsp l
        Dump_rec12 Let_def del: Mapping_varied.simps Dump_readers.simps)
  moreover have "length ?file = 578" by (simp add: length_Header_bytes pad lsp)
  moreover have "read_Header ?file = ?h\<lparr>h_item := 1\<rparr>" by (rule read_Header_bytes)
  ultimately show ?thesis by blast
qed

lemma load_short_varied:
  assumes "read_Header mem = (varied_header sd)\<lparr>h_item := 1\<rparr>" "length mem = 578"
  shows "CreateView mem = None"
  using CreateView_iff [of mem] assms by (simp add: varied_header_def KV_SEPARATED_def)

definition zero_hash :: hashfn where
  "zero_hash msg n sd = 0"







text \<open>
  Claim C1 at the stream of the one record \<open>rec12\<close> (key \<open>[1]\<close>, value \<open>[2]\<close>), for every hash
  function and seed: \<^verbatim>\<open>BuildDictWithVariedValue\<close> returns \<^verbatim>\<open>BUILD_STATUS_OK\<close> and writes 578
  bytes (header, 64 guide bytes, 64 lines of 7 bytes, 2 bytes of value); \<^verbatim>\<open>CreateView\<close> asks a
  \<open>KV_SEPARATED\<close> file of one set for \<open>64 + 64 + 448 + 64 = 640\<close> bytes, so the file does not
  load, and \<open>search\<close> for the key of the record misses.
\<close>

theorem varied_build_does_not_load:
  "length pad = 32 \<longrightarrow>
     (\<exists>art. BuildDictWithVariedValue Hash sd pad [ [rec12] ] out0
               = Some (BUILD_STATUS_OK, \<lparr>w_out = art, w_room = 422\<rparr>)
        \<and> is_null (Hashtable_load (Some art))
        \<and> search Hash (Hashtable_load (Some art)) (b_ptr (r_key rec12)) = Some null_slice)"
proof
  assume "length pad = 32"
  from Build_rec12 [OF this, of Hash sd]
  obtain art where a: "BuildDictWithVariedValue Hash sd pad [ [rec12] ] out0
             = Some (BUILD_STATUS_OK, \<lparr>w_out = art, w_room = 422\<rparr>)"
    "length art = 578" "read_Header art = (varied_header sd)\<lparr>h_item := 1\<rparr>" by blast
  from load_short_varied [OF a(3,2)] have n: "is_null (Hashtable_load (Some art))"
    by (simp add: Hashtable_load_null)
  from null_handle_misses [OF n] a(1) n show "\<exists>art. BuildDictWithVariedValue Hash sd pad [ [rec12] ] out0
               = Some (BUILD_STATUS_OK, \<lparr>w_out = art, w_room = 422\<rparr>)
        \<and> is_null (Hashtable_load (Some art))
        \<and> search Hash (Hashtable_load (Some art)) (b_ptr (r_key rec12)) = Some null_slice"
    by blast
qed

theorem varied_build_does_not_load_witness:
  "\<exists>art. BuildDictWithVariedValue zero_hash 0 (replicate 32 0) [ [rec12] ] out0
               = Some (BUILD_STATUS_OK, \<lparr>w_out = art, w_room = 422\<rparr>)
        \<and> is_null (Hashtable_load (Some art))
        \<and> search zero_hash (Hashtable_load (Some art)) (Some [1]) = Some null_slice"
  using varied_build_does_not_load [of "replicate 32 0" zero_hash 0] by (simp add: rec12_def)

end
